theory Spec2Isabelle
  imports Complex_Main "HOL-Library.Multiset" "HOL-Library.Log_Nat"
begin

text \<open>
  A model of \<open>simulated_training.py\<close>: the masks that classify the pixels of a truth
  field, the extraction of pixel coordinates away from the border, their aggregation
  over the images, and the sampling, shuffling and splitting of labelled coordinates.
  The functions keep the names of the source; a Python exception is the \<open>Inl\<close> of a
  result.
\<close>

section \<open>Arrays, dictionaries and errors\<close>

text \<open>
  A two-dimensional numpy array is a shape together with its cells: \<open>nrows\<close> and
  \<open>ncols\<close> are \<open>a.shape[0]\<close> and \<open>a.shape[1]\<close>, and \<open>cell a r c\<close> is \<open>a[r, c]\<close> for
  \<open>r < nrows a\<close> and \<open>c < ncols a\<close>. Cells outside the shape are never read by the
  functions below. A truth field is a \<open>real array2\<close> (the comparisons of the source
  against 0.25, 0.75 and 1 are exact on floating-point values, NaN apart), a mask is a
  \<open>bool array2\<close>.
\<close>

record 'a array2 =
  nrows :: nat
  ncols :: nat
  cell :: "nat \<Rightarrow> nat \<Rightarrow> 'a"

text \<open>
  A coordinate array of shape \<open>(3, K)\<close> is the list of its \<open>K\<close> columns; a column is
  (row index, column index, image number).
\<close>

type_synonym column = "int \<times> int \<times> int"
type_synonym coords = "column list"

text \<open>
  A Python dict is an association list with distinct keys, in iteration order.
\<close>

type_synonym 'v dict = "(string \<times> 'v) list"

datatype error = IndexError | KeyError | ValueError | OverflowError

definition keys :: "'v dict \<Rightarrow> string list" where
  "keys d = map fst d"

definition getitem :: "'v dict \<Rightarrow> string \<Rightarrow> error + 'v" where
  "getitem d k = (case map_of d k of None \<Rightarrow> Inl KeyError | Some v \<Rightarrow> Inr v)"

definition setitem :: "'v dict \<Rightarrow> string \<Rightarrow> 'v \<Rightarrow> 'v dict" where
  "setitem d k v =
     (if k \<in> set (keys d) then map (\<lambda>(k', v'). if k' = k then (k', v) else (k', v')) d
      else d @ [(k, v)])"

text \<open>A comprehension whose body may raise: the first error ends it.\<close>

fun traverse :: "('a \<Rightarrow> error + 'b) \<Rightarrow> 'a list \<Rightarrow> error + 'b list" where
  "traverse f [] = Inr []"
| "traverse f (x # xs) =
     (case f x of
        Inl e \<Rightarrow> Inl e
      | Inr y \<Rightarrow> (case traverse f xs of Inl e \<Rightarrow> Inl e | Inr ys \<Rightarrow> Inr (y # ys)))"

section \<open>Elementwise operations and binary morphology\<close>

definition array_map :: "('a \<Rightarrow> 'b) \<Rightarrow> 'a array2 \<Rightarrow> 'b array2" where
  "array_map f a = \<lparr>nrows = nrows a, ncols = ncols a, cell = (\<lambda>r c. f (cell a r c))\<rparr>"

definition array_map2 :: "('a \<Rightarrow> 'b \<Rightarrow> 'c) \<Rightarrow> 'a array2 \<Rightarrow> 'b array2 \<Rightarrow> 'c array2" where
  "array_map2 f a b =
     \<lparr>nrows = nrows a, ncols = ncols a, cell = (\<lambda>r c. f (cell a r c) (cell b r c))\<rparr>"

text \<open>\<open>lo < truth\<close>, \<open>truth < hi\<close>, \<open>a & b\<close> and \<open>~a\<close>.\<close>

definition above :: "real \<Rightarrow> real array2 \<Rightarrow> bool array2" where
  "above lo truth = array_map (\<lambda>x. lo < x) truth"

definition below :: "real array2 \<Rightarrow> real \<Rightarrow> bool array2" where
  "below truth hi = array_map (\<lambda>x. x < hi) truth"

definition mask_and :: "bool array2 \<Rightarrow> bool array2 \<Rightarrow> bool array2" where
  "mask_and a b = array_map2 (\<lambda>x y. x \<and> y) a b"

definition mask_not :: "bool array2 \<Rightarrow> bool array2" where
  "mask_not a = array_map (\<lambda>x. \<not> x) a"

text \<open>
  \<open>sp.ones((3, 3))\<close> as a structuring element: the offsets of its true entries from
  its centre.
\<close>

definition ones33 :: "(int \<times> int) list" where
  "ones33 = [(-1, -1), (-1, 0), (-1, 1), (0, -1), (0, 0), (0, 1), (1, -1), (1, 0), (1, 1)]"

text \<open>
  Reading a mask at a position that may lie outside it: scipy's morphology takes the
  outside as \<open>border_value = 0\<close>, that is false.
\<close>

definition padded :: "bool array2 \<Rightarrow> int \<Rightarrow> int \<Rightarrow> bool" where
  "padded m i j =
     (0 \<le> i \<and> i < int (nrows m) \<and> 0 \<le> j \<and> j < int (ncols m) \<and> cell m (nat i) (nat j))"

definition dilate_step :: "(int \<times> int) list \<Rightarrow> bool array2 \<Rightarrow> bool array2" where
  "dilate_step structure input =
     \<lparr>nrows = nrows input, ncols = ncols input,
      cell = (\<lambda>r c. list_ex (\<lambda>(dr, dc). padded input (int r - dr) (int c - dc)) structure)\<rparr>"

definition erode_step :: "(int \<times> int) list \<Rightarrow> bool array2 \<Rightarrow> bool array2" where
  "erode_step structure input =
     \<lparr>nrows = nrows input, ncols = ncols input,
      cell = (\<lambda>r c. list_all (\<lambda>(dr, dc). padded input (int r + dr) (int c + dc)) structure)\<rparr>"

text \<open>
  \<open>binary_dilation(input, structure, iterations)\<close> repeats the dilation \<open>iterations\<close>
  times; the source passes 3, 4, 5 and 15 (scipy reads an iteration count below 1 as
  "until nothing changes", which the source never asks for). \<open>binary_closing\<close> is one
  dilation followed by one erosion with the same structuring element.
\<close>

definition binary_dilation :: "bool array2 \<Rightarrow> (int \<times> int) list \<Rightarrow> nat \<Rightarrow> bool array2" where
  "binary_dilation input structure iterations = ((dilate_step structure) ^^ iterations) input"

definition binary_erosion :: "bool array2 \<Rightarrow> (int \<times> int) list \<Rightarrow> nat \<Rightarrow> bool array2" where
  "binary_erosion input structure iterations = ((erode_step structure) ^^ iterations) input"

definition binary_closing :: "bool array2 \<Rightarrow> (int \<times> int) list \<Rightarrow> bool array2" where
  "binary_closing input structure =
     binary_erosion (binary_dilation input structure 1) structure 1"

section \<open>Mask builder\<close>

definition make_damaged_spot_mask :: "real array2 \<Rightarrow> bool array2" where
  "make_damaged_spot_mask truth =
     (let damaged_pixel = mask_and (above 0.75 truth) (below truth 1);
          damaged_area = binary_closing damaged_pixel ones33;
          damaged_spot = mask_and damaged_area (above 0.75 truth)
      in damaged_spot)"

definition make_outside_near_damaged_spot_mask :: "real array2 \<Rightarrow> bool array2" where
  "make_outside_near_damaged_spot_mask truth =
     (let damaged_spot = make_damaged_spot_mask truth;
          near_damaged_spot = binary_dilation damaged_spot ones33 5;
          outside_near_damaged_spot = mask_and near_damaged_spot (below truth 0.25)
      in outside_near_damaged_spot)"

definition make_block_border_mask :: "real array2 \<Rightarrow> bool array2" where
  "make_block_border_mask truth =
     (let very_near_block = binary_dilation (above 0.75 truth) ones33 3;
          near_block = binary_dilation (above 0.75 truth) ones33 15;
          block_border = mask_and near_block (mask_not very_near_block)
      in block_border)"

definition make_between_spot_mask :: "real array2 \<Rightarrow> bool array2" where
  "make_between_spot_mask truth =
     (let near_spot = binary_dilation (above 0.75 truth) ones33 4;
          outside_near_spot = mask_and near_spot (below truth 0.25)
      in outside_near_spot)"

section \<open>Coordinate extractor\<close>

text \<open>
  A bound of a Python slice with step 1 over an axis of length \<open>n\<close>: a negative bound
  counts from the end, and the result is clipped to \<open>0 .. n\<close>. The slice \<open>a:b\<close>
  selects the indices \<open>k\<close> with \<open>slice_bound a n \<le> k < slice_bound b n\<close>.
\<close>

definition slice_bound :: "int \<Rightarrow> nat \<Rightarrow> nat" where
  "slice_bound i n = (if i < 0 then nat (max 0 (int n + i)) else min (nat i) n)"

definition in_slice :: "int \<Rightarrow> int \<Rightarrow> nat \<Rightarrow> nat \<Rightarrow> bool" where
  "in_slice start stop n k = (slice_bound start n \<le> k \<and> k < slice_bound stop n)"

text \<open>
  \<open>away_from_border = zeros(shape); away_from_border[border:-border, border:-border] = True\<close>
\<close>

definition away_from_border :: "nat \<Rightarrow> nat \<Rightarrow> int \<Rightarrow> bool array2" where
  "away_from_border h w border =
     \<lparr>nrows = h, ncols = w,
      cell = (\<lambda>r c. in_slice border (- border) h r \<and> in_slice border (- border) w c)\<rparr>"

text \<open>
  \<open>indices\<close> after the concatenation with \<open>im_nos\<close>: the array of shape \<open>(3, h, w)\<close>
  whose entry at \<open>[:, r, c]\<close> is \<open>(r, c, im_no)\<close>.
\<close>

definition indices :: "nat \<Rightarrow> nat \<Rightarrow> int \<Rightarrow> column array2" where
  "indices h w im_no = \<lparr>nrows = h, ncols = w, cell = (\<lambda>r c. (int r, int c, im_no))\<rparr>"

text \<open>
  \<open>a[:, mask]\<close>: the entries of \<open>a\<close> where the mask is true, in row-major order.
\<close>

definition bool_index :: "'a array2 \<Rightarrow> bool array2 \<Rightarrow> 'a list" where
  "bool_index a msk =
     concat (map (\<lambda>r. map (cell a r) (filter (cell msk r) [0..<ncols a])) [0..<nrows a])"

definition get_centers_single_image :: "real array2 \<Rightarrow> int \<Rightarrow> int \<Rightarrow> coords dict" where
  "get_centers_single_image truth im_no border =
     (let indices = indices (nrows truth) (ncols truth) im_no;
          away_from_border = away_from_border (nrows truth) (ncols truth) border
      in [(''inside'', bool_index indices (mask_and (above 0.75 truth) away_from_border)),
          (''outside'', bool_index indices (mask_and (below truth 0.25) away_from_border)),
          (''inside_damaged'',
             bool_index indices (mask_and (make_damaged_spot_mask truth) away_from_border)),
          (''outside_damaged'',
             bool_index indices
               (mask_and (make_outside_near_damaged_spot_mask truth) away_from_border)),
          (''block_border'',
             bool_index indices (mask_and (make_block_border_mask truth) away_from_border)),
          (''between'',
             bool_index indices (mask_and (make_between_spot_mask truth) away_from_border))])"

section \<open>Corpus aggregator\<close>

definition and_then :: "error + 'a \<Rightarrow> ('a \<Rightarrow> error + 'b) \<Rightarrow> error + 'b" where
  "and_then m f = (case m of Inl e \<Rightarrow> Inl e | Inr x \<Rightarrow> f x)"

text \<open>\<open>sp.concatenate\<close> raises a ValueError on an empty sequence of arrays.\<close>

definition concatenate :: "'a list list \<Rightarrow> error + 'a list" where
  "concatenate arrays = (if arrays = [] then Inl ValueError else Inr (concat arrays))"

text \<open>
  The second loop of \<open>get_centers\<close>:
  \<open>for name in centers[0]: result[name] = sp.concatenate([cs[name] for cs in centers], 1)\<close>
\<close>

fun get_centers_loop :: "coords dict list \<Rightarrow> string list \<Rightarrow> coords dict \<Rightarrow> error + coords dict" where
  "get_centers_loop centers [] result = Inr result"
| "get_centers_loop centers (name # names) result =
     and_then (traverse (\<lambda>cs. getitem cs name) centers) (\<lambda>arrays.
     and_then (concatenate arrays) (\<lambda>pool.
       get_centers_loop centers names (setitem result name pool)))"

text \<open>
  \<open>get_centers(truths, border)\<close>. The first loop numbers the truth fields from 0;
  \<open>centers[0]\<close> raises an IndexError when there is no truth field. (The source's
  default for \<open>border\<close> is 20; the model takes the border as an argument.)
\<close>

definition get_centers :: "real array2 list \<Rightarrow> int \<Rightarrow> error + coords dict" where
  "get_centers truths border =
     (let centers = map (\<lambda>(i, truth). get_centers_single_image truth (int i) border)
                        (enumerate 0 truths)
      in case centers of
           [] \<Rightarrow> Inl IndexError
         | first # rest \<Rightarrow> get_centers_loop centers (keys first) [])"

section \<open>Double-precision arithmetic\<close>

text \<open>
  A Python float is an IEEE 754 double. \<open>Finite m e\<close> is the number \<open>m * 2 ^ e\<close>,
  \<open>Infinity True\<close> is minus infinity. The two zeros are not told apart: no operation
  below depends on the sign of a zero. \<open>dyadic m e\<close> is the real number \<open>m * 2 ^ e\<close>.
\<close>

datatype float64 = Finite int int | Infinity bool | NaN

definition dyadic :: "int \<Rightarrow> int \<Rightarrow> real" where
  "dyadic m e = (if 0 \<le> e then of_int (m * 2 ^ nat e) else of_int m / 2 ^ nat (- e))"

text \<open>The integer nearest to \<open>m / d\<close>, the even one of two nearest.\<close>

definition round_half_even :: "int \<Rightarrow> int \<Rightarrow> int" where
  "round_half_even m d =
     (let q = m div d; r = m mod d
      in if 2 * r < d then q else if d < 2 * r then q + 1 else if even q then q else q + 1)"

text \<open>
  The double nearest to \<open>m * 2 ^ e\<close> (round to nearest, ties to even): the low \<open>k\<close>
  bits are rounded away so that 53 bits remain and the exponent is not below that of the
  subnormal numbers, -1074; a result of magnitude \<open>2 ^ 1024\<close> or more is an infinity.
\<close>

definition round_double :: "int \<Rightarrow> int \<Rightarrow> float64" where
  "round_double m e =
     (if m = 0 then Finite 0 0
      else let k = max (bitlen \<bar>m\<bar> - 53) (- 1074 - e);
               q = (if k \<le> 0 then m else round_half_even m (2 ^ nat k));
               e' = (if k \<le> 0 then e else e + k)
           in if 1024 < bitlen \<bar>q\<bar> + e' then Infinity (m < 0) else Finite q e')"

fun fsub :: "float64 \<Rightarrow> float64 \<Rightarrow> float64" where
  "fsub (Finite m1 e1) (Finite m2 e2) =
     (let e = min e1 e2 in round_double (m1 * 2 ^ nat (e1 - e) - m2 * 2 ^ nat (e2 - e)) e)"
| "fsub NaN y = NaN"
| "fsub x NaN = NaN"
| "fsub (Infinity a) (Infinity b) = (if a = b then NaN else Infinity a)"
| "fsub (Infinity a) (Finite m e) = Infinity a"
| "fsub (Finite m e) (Infinity b) = Infinity (\<not> b)"

fun fmul :: "float64 \<Rightarrow> float64 \<Rightarrow> float64" where
  "fmul (Finite m1 e1) (Finite m2 e2) = round_double (m1 * m2) (e1 + e2)"
| "fmul NaN y = NaN"
| "fmul x NaN = NaN"
| "fmul (Infinity a) (Infinity b) = Infinity (a \<noteq> b)"
| "fmul (Infinity a) (Finite m e) = (if m = 0 then NaN else Infinity (a \<noteq> (m < 0)))"
| "fmul (Finite m e) (Infinity b) = (if m = 0 then NaN else Infinity ((m < 0) \<noteq> b))"

text \<open>
  The conversion of a Python int that an arithmetic operation with a float makes: the
  nearest double, and an OverflowError when the int is too large for a double.
\<close>

definition float_of_nat :: "nat \<Rightarrow> error + float64" where
  "float_of_nat n =
     (case round_double (int n) 0 of
        Finite m e \<Rightarrow> Inr (Finite m e)
      | Infinity a \<Rightarrow> Inl OverflowError
      | NaN \<Rightarrow> Inl OverflowError)"

text \<open>
  Python's \<open>int(x)\<close> on a float truncates towards zero; it raises an OverflowError on
  an infinity and a ValueError on a NaN.
\<close>

fun py_int :: "float64 \<Rightarrow> error + int" where
  "py_int (Finite m e) =
     Inr (if 0 \<le> e then m * 2 ^ nat e
          else if 0 \<le> m then m div 2 ^ nat (- e) else - ((- m) div 2 ^ nat (- e)))"
| "py_int (Infinity a) = Inl OverflowError"
| "py_int NaN = Inl ValueError"

text \<open>Line 131: \<open>n_training = int((1-test_split)*center_set.shape[1])\<close>\<close>

definition n_training :: "float64 \<Rightarrow> nat \<Rightarrow> error + int" where
  "n_training test_split n =
     and_then (float_of_nat 1) (\<lambda>one.
     and_then (float_of_nat n) (\<lambda>columns.
       py_int (fmul (fsub one test_split) columns)))"

text \<open>A test split that is a fraction: a finite double between 0 and 1.\<close>

fun is_fraction :: "float64 \<Rightarrow> bool" where
  "is_fraction (Finite m e) = (0 \<le> m \<and> dyadic m e \<le> 1)"
| "is_fraction x = False"

section \<open>Balanced sampler\<close>

definition LABEL_ENUM :: "int dict" where
  "LABEL_ENUM =
     [(''inside'', 1), (''outside'', 0), (''inside_damaged'', 1), (''outside_damaged'', 0),
      (''block_border'', 0), (''between'', 0)]"

text \<open>The quotas of the source (\<open>2e5\<close> and \<open>1e5\<close>, as numbers of samples).\<close>

definition counts :: "nat dict" where
  "counts =
     [(''inside'', 200000), (''outside'', 100000), (''inside_damaged'', 200000),
      (''outside_damaged'', 100000), (''block_border'', 100000), (''between'', 100000)]"

text \<open>
  The process-wide random source is not part of the program: a run is determined by
  what the source's calls return, so the model takes these outcomes as an argument.
  \<open>choice_outcome rng name a n\<close> is what \<open>sp.random.choice(a, n)\<close> returns in the
  iteration for the category \<open>name\<close>, \<open>permutation_outcome rng a\<close> what
  \<open>sp.random.permutation(a)\<close> returns.
\<close>

record rng =
  choice_outcome :: "string \<Rightarrow> nat list \<Rightarrow> nat \<Rightarrow> nat list"
  permutation_outcome :: "nat list \<Rightarrow> nat list"

text \<open>
  \<open>choice(a, n)\<close> raises a ValueError when \<open>a\<close> is empty and samples are asked for;
  otherwise it returns \<open>n\<close> elements of \<open>a\<close>. \<open>permutation(a)\<close> returns a
  rearrangement of \<open>a\<close>. What the library promises about the outcomes is
  \<open>choice_contract\<close> and \<open>permutation_contract\<close>.
\<close>

definition random_choice :: "rng \<Rightarrow> string \<Rightarrow> nat list \<Rightarrow> nat \<Rightarrow> error + nat list" where
  "random_choice rng name a n =
     (if a = [] \<and> n \<noteq> 0 then Inl ValueError else Inr (choice_outcome rng name a n))"

definition random_permutation :: "rng \<Rightarrow> nat list \<Rightarrow> nat list" where
  "random_permutation rng a = permutation_outcome rng a"

definition choice_contract :: "'a list \<Rightarrow> 'a list \<Rightarrow> nat \<Rightarrow> bool" where
  "choice_contract outcome a n = (length outcome = n \<and> set outcome \<subseteq> set a)"

definition permutation_contract :: "'a list \<Rightarrow> 'a list \<Rightarrow> bool" where
  "permutation_contract outcome a = (mset outcome = mset a)"

definition rng_contract :: "rng \<Rightarrow> bool" where
  "rng_contract rng =
     ((\<forall>name a n. a \<noteq> [] \<or> n = 0 \<longrightarrow> choice_contract (choice_outcome rng name a n) a n) \<and>
      (\<forall>a. permutation_contract (permutation_outcome rng a) a))"

text \<open>
  Indexing with an integer array, \<open>a[:, idx]\<close> and \<open>a[idx]\<close>: an index outside the
  array raises an IndexError.
\<close>

definition index_by :: "'a list \<Rightarrow> nat list \<Rightarrow> error + 'a list" where
  "index_by a idx =
     (if list_all (\<lambda>i. i < length a) idx then Inr (map (\<lambda>i. a ! i) idx) else Inl IndexError)"

text \<open>A dict comprehension \<open>{name: f(name) for name in names}\<close> over distinct names.\<close>

definition dict_comp :: "(string \<Rightarrow> error + 'v) \<Rightarrow> string list \<Rightarrow> error + 'v dict" where
  "dict_comp f names = traverse (\<lambda>name. and_then (f name) (\<lambda>v. Inr (name, v))) names"

text \<open>
  The statements of \<open>make_labelled_sets\<close>, in order. The quotas are the local
  dict \<open>counts\<close> of the source; the stages take them as the argument \<open>quotas\<close>, and
  \<open>make_labelled_sets\<close> passes \<open>counts\<close>. The test split is a float (0.1 by default).
\<close>

definition draw_choices :: "nat dict \<Rightarrow> coords dict \<Rightarrow> rng \<Rightarrow> error + nat list dict" where
  "draw_choices quotas centers rng =
     dict_comp (\<lambda>name.
        and_then (getitem centers name) (\<lambda>pool.
        and_then (getitem quotas name) (\<lambda>quota.
          random_choice rng name [0..<length pool] quota)))
       (keys centers)"

definition select_center_sets :: "coords dict \<Rightarrow> nat list dict \<Rightarrow> error + coords dict" where
  "select_center_sets centers choices =
     dict_comp (\<lambda>name.
        and_then (getitem centers name) (\<lambda>pool.
        and_then (getitem choices name) (\<lambda>idx. index_by pool idx)))
       (keys centers)"

definition make_label_sets :: "nat dict \<Rightarrow> coords dict \<Rightarrow> error + int list dict" where
  "make_label_sets quotas centers =
     dict_comp (\<lambda>name.
        and_then (getitem LABEL_ENUM name) (\<lambda>label.
        and_then (getitem quotas name) (\<lambda>quota. Inr (replicate quota label))))
       (keys centers)"

text \<open>\<open>sp.concatenate([sets[name] for name in centers])\<close>\<close>

definition concatenate_sets :: "coords dict \<Rightarrow> 'a list dict \<Rightarrow> error + 'a list" where
  "concatenate_sets centers sets =
     and_then (traverse (\<lambda>name. getitem sets name) (keys centers)) concatenate"

text \<open>Lines 120 to 125: the sampled coordinates and labels before the shuffle.\<close>

definition sample_sets :: "nat dict \<Rightarrow> coords dict \<Rightarrow> rng \<Rightarrow> error + (coords \<times> int list)" where
  "sample_sets quotas centers rng =
     and_then (draw_choices quotas centers rng) (\<lambda>choices.
     and_then (select_center_sets centers choices) (\<lambda>center_sets.
     and_then (make_label_sets quotas centers) (\<lambda>label_sets.
     and_then (concatenate_sets centers center_sets) (\<lambda>center_set.
     and_then (concatenate_sets centers label_sets) (\<lambda>label_set.
       Inr (center_set, label_set))))))"

text \<open>Lines 127 to 129: one permutation, applied to both arrays.\<close>

definition shuffle :: "coords \<Rightarrow> int list \<Rightarrow> rng \<Rightarrow> error + (coords \<times> int list)" where
  "shuffle center_set label_set rng =
     (let order = random_permutation rng [0..<length center_set]
      in and_then (index_by center_set order) (\<lambda>ordered_centers.
         and_then (index_by label_set order) (\<lambda>ordered_labels.
           Inr (ordered_centers, ordered_labels))))"

text \<open>
  Lines 131 to 135: \<open>a[:n]\<close> and \<open>a[n:]\<close> for the integer \<open>n_training\<close>, with Python's
  reading of a negative or too large bound.
\<close>

definition split_train_test ::
  "coords \<Rightarrow> int list \<Rightarrow> float64 \<Rightarrow> error + (coords \<times> int list \<times> coords \<times> int list)" where
  "split_train_test ordered_centers ordered_labels test_split =
     and_then (n_training test_split (length ordered_centers)) (\<lambda>n_training.
       (let training_centers = take (slice_bound n_training (length ordered_centers)) ordered_centers;
            training_labels = take (slice_bound n_training (length ordered_labels)) ordered_labels;
            test_centers = drop (slice_bound n_training (length ordered_centers)) ordered_centers;
            test_labels = drop (slice_bound n_training (length ordered_labels)) ordered_labels
        in Inr (training_centers, training_labels, test_centers, test_labels)))"

definition make_labelled_sets_with ::
  "nat dict \<Rightarrow> coords dict \<Rightarrow> float64 \<Rightarrow> rng \<Rightarrow> error + (coords \<times> int list \<times> coords \<times> int list)" where
  "make_labelled_sets_with quotas centers test_split rng =
     and_then (sample_sets quotas centers rng) (\<lambda>(center_set, label_set).
     and_then (shuffle center_set label_set rng) (\<lambda>(ordered_centers, ordered_labels).
       split_train_test ordered_centers ordered_labels test_split))"

definition make_labelled_sets ::
  "coords dict \<Rightarrow> float64 \<Rightarrow> rng \<Rightarrow> error + (coords \<times> int list \<times> coords \<times> int list)" where
  "make_labelled_sets centers test_split rng = make_labelled_sets_with counts centers test_split rng"

text \<open>The keys of the dict that \<open>get_centers_single_image\<close> builds, in its order.\<close>

definition category_names :: "string list" where
  "category_names =
     [''inside'', ''outside'', ''inside_damaged'', ''outside_damaged'', ''block_border'', ''between'']"

section \<open>Vocabulary of the sampler's properties\<close>

text \<open>
  The inputs of the sampler: \<open>centers\<close> is a non-empty dict with the keys of the
  quotas, and every key is a key of \<open>LABEL_ENUM\<close> (as a dict that \<open>get_centers\<close>
  returns is, for the quotas \<open>counts\<close>).
\<close>

definition sampler_input :: "nat dict \<Rightarrow> coords dict \<Rightarrow> bool" where
  "sampler_input quotas centers =
     (centers \<noteq> [] \<and> distinct (keys centers) \<and> distinct (keys quotas) \<and>
      set (keys centers) = set (keys quotas) \<and> set (keys quotas) \<subseteq> set (keys LABEL_ENUM))"

text \<open>
  The outcomes of the random source keep the library's contracts at the calls that the
  sampler makes: each \<open>choice\<close> that does not raise returns as many indices of its pool
  as the quota asks for, and \<open>permutation\<close> returns a rearrangement of
  \<open>arange(center_set.shape[1])\<close>.
\<close>

definition choices_ok :: "nat dict \<Rightarrow> coords dict \<Rightarrow> rng \<Rightarrow> bool" where
  "choices_ok quotas centers rng =
     list_all (\<lambda>(name, pool).
         case map_of quotas name of
           None \<Rightarrow> True
         | Some quota \<Rightarrow>
             (pool = [] \<and> quota \<noteq> 0) \<or>
             choice_contract (choice_outcome rng name [0..<length pool] quota)
               [0..<length pool] quota) centers"

definition permutation_ok :: "nat dict \<Rightarrow> coords dict \<Rightarrow> rng \<Rightarrow> bool" where
  "permutation_ok quotas centers rng =
     (case sample_sets quotas centers rng of
        Inl e \<Rightarrow> True
      | Inr (center_set, label_set) \<Rightarrow>
          permutation_contract (permutation_outcome rng [0..<length center_set])
            [0..<length center_set])"

definition outcomes_ok :: "nat dict \<Rightarrow> coords dict \<Rightarrow> rng \<Rightarrow> bool" where
  "outcomes_ok quotas centers rng =
     (choices_ok quotas centers rng \<and> permutation_ok quotas centers rng)"

text \<open>Some category with a positive quota has a pool without columns.\<close>

definition starved :: "nat dict \<Rightarrow> coords dict \<Rightarrow> bool" where
  "starved quotas centers =
     list_ex (\<lambda>(name, pool).
         pool = [] \<and> (case map_of quotas name of None \<Rightarrow> False | Some quota \<Rightarrow> 0 < quota))
       centers"

text \<open>
  The bookkeeping of a test harness: the indices that the random source returns for a
  category and its quota, and every drawn sample with the category it was drawn for, in
  the order of the concatenation before the shuffle.
\<close>

definition drawn :: "nat dict \<Rightarrow> rng \<Rightarrow> string \<Rightarrow> coords \<Rightarrow> nat list" where
  "drawn quotas rng name pool =
     choice_outcome rng name [0..<length pool]
       (case map_of quotas name of None \<Rightarrow> 0 | Some quota \<Rightarrow> quota)"

definition tagged_samples :: "nat dict \<Rightarrow> coords dict \<Rightarrow> rng \<Rightarrow> (string \<times> column) list" where
  "tagged_samples quotas centers rng =
     concat (map (\<lambda>(name, pool). map (\<lambda>i. (name, pool ! i)) (drawn quotas rng name pool)) centers)"

text \<open>The number of test samples of a run, if it returns.\<close>

definition test_size :: "error + (coords \<times> int list \<times> coords \<times> int list) \<Rightarrow> nat option" where
  "test_size result =
     (case result of Inl e \<Rightarrow> None | Inr (trc, trl, tec, tel) \<Rightarrow> Some (length tec))"

section \<open>Example inputs\<close>

text \<open>
  A 3 by 3 truth field of damaged pixels (0.9) around one undamaged spot pixel (1), and
  a single row with one spot pixel at its left end.
\<close>

definition truth_filled :: "real array2" where
  "truth_filled = \<lparr>nrows = 3, ncols = 3, cell = (\<lambda>r c. if r = 1 \<and> c = 1 then 1 else 0.9)\<rparr>"

definition truth_row :: "real array2" where
  "truth_row = \<lparr>nrows = 1, ncols = 6, cell = (\<lambda>r c. if c = 0 then 1 else 0)\<rparr>"

text \<open>
  Pools for the sampler: one column in every pool; the same with no damaged spot pixel;
  and a random source that always draws the first element and permutes nothing. A small
  run: quotas 2, 1, 1, 1, 1, 1, three columns in the pool of \<open>inside\<close>, of which the
  third and the first are drawn, and the reversal as the permutation. The doubles
  nearest to 0.1 and to 0.9.
\<close>

definition centers_unit :: "coords dict" where
  "centers_unit =
     [(''inside'', [(20, 20, 0)]), (''outside'', [(20, 21, 0)]),
      (''inside_damaged'', [(20, 22, 0)]), (''outside_damaged'', [(20, 23, 0)]),
      (''block_border'', [(20, 24, 0)]), (''between'', [(20, 25, 0)])]"

definition centers_starved :: "coords dict" where
  "centers_starved =
     [(''inside'', [(20, 20, 0)]), (''outside'', [(20, 21, 0)]),
      (''inside_damaged'', []), (''outside_damaged'', [(20, 23, 0)]),
      (''block_border'', [(20, 24, 0)]), (''between'', [(20, 25, 0)])]"

definition rng_unit :: rng where
  "rng_unit =
     \<lparr>choice_outcome = (\<lambda>name a n. replicate n (hd a)), permutation_outcome = (\<lambda>a. a)\<rparr>"

definition quotas_small :: "nat dict" where
  "quotas_small = [(''inside'', 2), (''outside'', 1), (''inside_damaged'', 1),
     (''outside_damaged'', 1), (''block_border'', 1), (''between'', 1)]"

definition centers_small :: "coords dict" where
  "centers_small =
     [(''inside'', [(5, 5, 0), (5, 6, 0), (6, 5, 1)]), (''outside'', [(20, 21, 0)]),
      (''inside_damaged'', [(20, 22, 0)]), (''outside_damaged'', [(20, 23, 0)]),
      (''block_border'', [(20, 24, 0)]), (''between'', [(20, 25, 0)])]"

definition rng_small :: rng where
  "rng_small =
     \<lparr>choice_outcome =
        (\<lambda>name a n. if name = ''inside'' \<and> a = [0, 1, 2] \<and> n = 2 then [2, 0]
                    else replicate n (hd a)),
      permutation_outcome = rev\<rparr>"

definition double_0_1 :: float64 where
  "double_0_1 = Finite 3602879701896397 (- 55)"

definition double_0_9 :: float64 where
  "double_0_9 = Finite 8106479329266893 (- 53)"

section \<open>Properties of the mask builder\<close>

lemma array_map_simps:
  "nrows (array_map f a) = nrows a" "ncols (array_map f a) = ncols a"
  "cell (array_map f a) r c = f (cell a r c)"
  by (simp_all add: array_map_def)

lemma array_map2_simps:
  "nrows (array_map2 f a b) = nrows a" "ncols (array_map2 f a b) = ncols a"
  "cell (array_map2 f a b) r c = f (cell a r c) (cell b r c)"
  by (simp_all add: array_map2_def)

lemma above_simps:
  "nrows (above lo t) = nrows t" "ncols (above lo t) = ncols t"
  "cell (above lo t) r c = (lo < cell t r c)"
  by (simp_all add: above_def array_map_simps)

lemma below_simps:
  "nrows (below t hi) = nrows t" "ncols (below t hi) = ncols t"
  "cell (below t hi) r c = (cell t r c < hi)"
  by (simp_all add: below_def array_map_simps)

lemma mask_and_simps:
  "nrows (mask_and a b) = nrows a" "ncols (mask_and a b) = ncols a"
  "cell (mask_and a b) r c = (cell a r c \<and> cell b r c)"
  by (simp_all add: mask_and_def array_map2_simps)

lemma mask_not_simps:
  "nrows (mask_not a) = nrows a" "ncols (mask_not a) = ncols a"
  "cell (mask_not a) r c = (\<not> cell a r c)"
  by (simp_all add: mask_not_def array_map_simps)

lemma dilate_step_shape:
  "nrows (dilate_step s m) = nrows m" "ncols (dilate_step s m) = ncols m"
  by (simp_all add: dilate_step_def)

lemma erode_step_shape:
  "nrows (erode_step s m) = nrows m" "ncols (erode_step s m) = ncols m"
  by (simp_all add: erode_step_def)

lemma binary_dilation_shape:
  "nrows (binary_dilation m s n) = nrows m" "ncols (binary_dilation m s n) = ncols m"
  by (induction n) (simp_all add: binary_dilation_def dilate_step_shape)

lemma binary_dilation_0: "binary_dilation m s 0 = m"
  by (simp add: binary_dilation_def)

lemma binary_dilation_Suc:
  "binary_dilation m s (Suc n) = dilate_step s (binary_dilation m s n)"
  by (simp add: binary_dilation_def)

lemma dilate_step_cell:
  "cell (dilate_step ones33 m) r c \<longleftrightarrow>
     (\<exists>r' c'. r' < nrows m \<and> c' < ncols m \<and> cell m r' c' \<and>
        \<bar>int r - int r'\<bar> \<le> 1 \<and> \<bar>int c - int c'\<bar> \<le> 1)"
proof
  assume "cell (dilate_step ones33 m) r c"
  then obtain dr dc where d: "(dr, dc) \<in> set ones33" and p: "padded m (int r - dr) (int c - dc)"
    by (auto simp: dilate_step_def list_ex_iff)
  from d have b: "\<bar>dr\<bar> \<le> 1" "\<bar>dc\<bar> \<le> 1"
    by (auto simp: ones33_def)
  let ?r = "nat (int r - dr)" and ?c = "nat (int c - dc)"
  from p have "?r < nrows m" "?c < ncols m" "cell m ?r ?c" "int ?r = int r - dr" "int ?c = int c - dc"
    by (auto simp: padded_def)
  with b show "\<exists>r' c'. r' < nrows m \<and> c' < ncols m \<and> cell m r' c' \<and>
        \<bar>int r - int r'\<bar> \<le> 1 \<and> \<bar>int c - int c'\<bar> \<le> 1"
    by (intro exI[of _ ?r] exI[of _ ?c]) auto
next
  assume "\<exists>r' c'. r' < nrows m \<and> c' < ncols m \<and> cell m r' c' \<and>
        \<bar>int r - int r'\<bar> \<le> 1 \<and> \<bar>int c - int c'\<bar> \<le> 1"
  then obtain r' c' where h: "r' < nrows m" "c' < ncols m" "cell m r' c'"
    "\<bar>int r - int r'\<bar> \<le> 1" "\<bar>int c - int c'\<bar> \<le> 1" by blast
  define dr dc where "dr = int r - int r'" and "dc = int c - int c'"
  from h have "dr \<in> {-1, 0, 1}" "dc \<in> {-1, 0, 1}"
    unfolding dr_def dc_def by auto
  then have d: "(dr, dc) \<in> set ones33"
    by (auto simp: ones33_def)
  have "padded m (int r - dr) (int c - dc)"
    using h by (simp add: padded_def dr_def dc_def)
  with d show "cell (dilate_step ones33 m) r c"
    by (auto simp: dilate_step_def list_ex_iff)
qed

lemma step_towards:
  fixes r r' :: nat
  assumes "\<bar>int r - int r'\<bar> \<le> int (Suc n)" "r' < h" "r < h"
  shows "\<exists>r''. r'' < h \<and> \<bar>int r - int r''\<bar> \<le> 1 \<and> \<bar>int r'' - int r'\<bar> \<le> int n"
proof -
  consider "r < r'" | "r = r'" | "r' < r" by linarith
  then show ?thesis
  proof cases
    case 1
    with assms show ?thesis by (intro exI[of _ "Suc r"]) auto
  next
    case 2
    with assms show ?thesis by (intro exI[of _ r]) auto
  next
    case 3
    with assms show ?thesis by (intro exI[of _ "r - 1"]) auto
  qed
qed

lemma binary_dilation_cell:
  assumes "r < nrows m" "c < ncols m"
  shows "cell (binary_dilation m ones33 n) r c \<longleftrightarrow>
     (\<exists>r' c'. r' < nrows m \<and> c' < ncols m \<and> cell m r' c' \<and>
        \<bar>int r - int r'\<bar> \<le> int n \<and> \<bar>int c - int c'\<bar> \<le> int n)"
  using assms
proof (induction n arbitrary: r c)
  case 0
  then show ?case
    by (auto simp: binary_dilation_0)
next
  case (Suc n)
  let ?d = "binary_dilation m ones33 n"
  show ?case
  proof
    assume "cell (binary_dilation m ones33 (Suc n)) r c"
    then obtain r1 c1 where h1: "r1 < nrows m" "c1 < ncols m" "cell ?d r1 c1"
      "\<bar>int r - int r1\<bar> \<le> 1" "\<bar>int c - int c1\<bar> \<le> 1"
      by (auto simp: binary_dilation_Suc dilate_step_cell binary_dilation_shape)
    from Suc.IH[OF h1(1,2)] h1(3) obtain r' c' where h2: "r' < nrows m" "c' < ncols m"
      "cell m r' c'" "\<bar>int r1 - int r'\<bar> \<le> int n" "\<bar>int c1 - int c'\<bar> \<le> int n"
      by blast
    from h1(4,5) h2(4,5) have "\<bar>int r - int r'\<bar> \<le> int (Suc n)" "\<bar>int c - int c'\<bar> \<le> int (Suc n)"
      by linarith+
    with h2 show "\<exists>r' c'. r' < nrows m \<and> c' < ncols m \<and> cell m r' c' \<and>
        \<bar>int r - int r'\<bar> \<le> int (Suc n) \<and> \<bar>int c - int c'\<bar> \<le> int (Suc n)"
      by blast
  next
    assume "\<exists>r' c'. r' < nrows m \<and> c' < ncols m \<and> cell m r' c' \<and>
        \<bar>int r - int r'\<bar> \<le> int (Suc n) \<and> \<bar>int c - int c'\<bar> \<le> int (Suc n)"
    then obtain r' c' where h: "r' < nrows m" "c' < ncols m" "cell m r' c'"
      "\<bar>int r - int r'\<bar> \<le> int (Suc n)" "\<bar>int c - int c'\<bar> \<le> int (Suc n)"
      by blast
    from step_towards[OF h(4) h(1) Suc.prems(1)] obtain r1 where r1: "r1 < nrows m"
      "\<bar>int r - int r1\<bar> \<le> 1" "\<bar>int r1 - int r'\<bar> \<le> int n" by blast
    from step_towards[OF h(5) h(2) Suc.prems(2)] obtain c1 where c1: "c1 < ncols m"
      "\<bar>int c - int c1\<bar> \<le> 1" "\<bar>int c1 - int c'\<bar> \<le> int n" by blast
    have "cell ?d r1 c1"
      using Suc.IH[OF r1(1) c1(1)] h(1,2,3) r1(3) c1(3) by blast
    with r1 c1 show "cell (binary_dilation m ones33 (Suc n)) r c"
      by (auto simp: binary_dilation_Suc dilate_step_cell binary_dilation_shape)
  qed
qed

lemma binary_closing_cell:
  assumes "cell (binary_closing m ones33) r c"
  shows "r < nrows m \<and> c < ncols m \<and>
     (\<exists>r' c'. r' < nrows m \<and> c' < ncols m \<and> cell m r' c' \<and>
        \<bar>int r - int r'\<bar> \<le> 1 \<and> \<bar>int c - int c'\<bar> \<le> 1)"
proof -
  let ?d = "dilate_step ones33 m"
  from assms have "list_all (\<lambda>(dr, dc). padded ?d (int r + dr) (int c + dc)) ones33"
    by (simp add: binary_closing_def binary_erosion_def binary_dilation_def erode_step_def)
  then have "padded ?d (int r + 0) (int c + 0)"
    by (simp add: ones33_def)
  then have "r < nrows m" "c < ncols m" "cell ?d r c"
    by (simp_all add: padded_def dilate_step_shape)
  then show ?thesis
    by (simp add: dilate_step_cell)
qed


text \<open>
  Claim C1, as the code has it: every pixel of \<open>make_damaged_spot_mask(T)\<close> lies inside
  the field, has \<open>0.75 < T\<close> there, and has a pixel with \<open>0.75 < T < 1\<close> in its 3 by 3
  neighbourhood. The last intersection of the source is with \<open>0.75 < T\<close> only, so the
  upper bound \<open>T < 1\<close> holds for that neighbour, not for the pixel itself.
\<close>

theorem damaged_spot_mask_above_threshold:
  assumes "cell (make_damaged_spot_mask truth) r c"
  shows "0.75 < cell truth r c \<and> r < nrows truth \<and> c < ncols truth \<and>
     (\<exists>r' c'. r' < nrows truth \<and> c' < ncols truth \<and>
        0.75 < cell truth r' c' \<and> cell truth r' c' < 1 \<and>
        \<bar>int r - int r'\<bar> \<le> 1 \<and> \<bar>int c - int c'\<bar> \<le> 1)"
proof -
  let ?p = "mask_and (above 0.75 truth) (below truth 1)"
  from assms have a: "cell (binary_closing ?p ones33) r c" and b: "0.75 < cell truth r c"
    by (simp_all add: make_damaged_spot_mask_def mask_and_simps above_simps)
  from binary_closing_cell[OF a] b show ?thesis
    by (simp add: mask_and_simps above_simps below_simps)
qed

theorem damaged_spot_mask_above_threshold_witness:
  "cell (make_damaged_spot_mask truth_filled) 1 1 \<and>
   0.75 < cell truth_filled 1 1 \<and> 1 < nrows truth_filled \<and> 1 < ncols truth_filled \<and>
     (\<exists>r' c'. r' < nrows truth_filled \<and> c' < ncols truth_filled \<and>
        0.75 < cell truth_filled r' c' \<and> cell truth_filled r' c' < 1 \<and>
        \<bar>int 1 - int r'\<bar> \<le> 1 \<and> \<bar>int 1 - int c'\<bar> \<le> 1)"
proof -
  have h: "cell (make_damaged_spot_mask truth_filled) 1 1"
    by code_simp
  from damaged_spot_mask_above_threshold[OF h] h show ?thesis by simp
qed

text \<open>
  Claim C1 as stated fails: the closing fills the undamaged centre of \<open>truth_filled\<close>,
  where \<open>T = 1\<close>, and the mask keeps it.
\<close>

theorem damaged_spot_mask_includes_undamaged:
  "cell (make_damaged_spot_mask truth_filled) 1 1 \<and> cell truth_filled 1 1 = 1"
  by (simp add: make_damaged_spot_mask_def truth_filled_def binary_closing_def binary_erosion_def
      binary_dilation_def erode_step_def dilate_step_def padded_def ones33_def mask_and_simps
      above_simps below_simps)

subsection \<open>The block border mask\<close>

lemma make_block_border_mask_cell:
  assumes "r < nrows truth" "c < ncols truth"
  shows "cell (make_block_border_mask truth) r c \<longleftrightarrow>
     (\<exists>r' c'. r' < nrows truth \<and> c' < ncols truth \<and> 0.75 < cell truth r' c' \<and>
        \<bar>int r - int r'\<bar> \<le> 15 \<and> \<bar>int c - int c'\<bar> \<le> 15) \<and>
     \<not> (\<exists>r' c'. r' < nrows truth \<and> c' < ncols truth \<and> 0.75 < cell truth r' c' \<and>
        \<bar>int r - int r'\<bar> \<le> 3 \<and> \<bar>int c - int c'\<bar> \<le> 3)"
  using assms
  by (simp add: make_block_border_mask_def mask_and_simps mask_not_simps
      binary_dilation_cell above_simps)

text \<open>
  Claim C8: \<open>make_block_border_mask(T)\<close> is the 15-fold dilation of \<open>T > 0.75\<close> without
  its 3-fold dilation; a pixel of it inside the field lies in the former, not in the
  latter, and not in \<open>T > 0.75\<close> itself.
\<close>

theorem block_border_mask_annulus:
  "make_block_border_mask truth =
     mask_and (binary_dilation (above 0.75 truth) ones33 15)
              (mask_not (binary_dilation (above 0.75 truth) ones33 3)) \<and>
   (r < nrows truth \<and> c < ncols truth \<and> cell (make_block_border_mask truth) r c \<longrightarrow>
      cell (binary_dilation (above 0.75 truth) ones33 15) r c \<and>
      \<not> cell (binary_dilation (above 0.75 truth) ones33 3) r c \<and>
      \<not> cell (above 0.75 truth) r c)"
proof (intro conjI impI)
  show "make_block_border_mask truth =
     mask_and (binary_dilation (above 0.75 truth) ones33 15)
              (mask_not (binary_dilation (above 0.75 truth) ones33 3))"
    by (simp add: make_block_border_mask_def)
next
  assume h: "r < nrows truth \<and> c < ncols truth \<and> cell (make_block_border_mask truth) r c"
  then show "cell (binary_dilation (above 0.75 truth) ones33 15) r c"
    by (simp add: make_block_border_mask_def mask_and_simps)
  from h show n3: "\<not> cell (binary_dilation (above 0.75 truth) ones33 3) r c"
    by (simp add: make_block_border_mask_def mask_and_simps mask_not_simps)
  show "\<not> cell (above 0.75 truth) r c"
  proof
    assume "cell (above 0.75 truth) r c"
    with h have "\<exists>r' c'. r' < nrows (above 0.75 truth) \<and> c' < ncols (above 0.75 truth) \<and>
        cell (above 0.75 truth) r' c' \<and> \<bar>int r - int r'\<bar> \<le> int 3 \<and> \<bar>int c - int c'\<bar> \<le> int 3"
      by (intro exI[of _ r] exI[of _ c]) (simp add: above_simps)
    with h have "cell (binary_dilation (above 0.75 truth) ones33 3) r c"
      by (subst binary_dilation_cell) (simp_all add: above_simps)
    with n3 show False ..
  qed
qed

lemma truth_row_border: "cell (make_block_border_mask truth_row) 0 5"
proof -
  have "\<not> (\<exists>r' c'. r' < nrows truth_row \<and> c' < ncols truth_row \<and> 0.75 < cell truth_row r' c' \<and>
        \<bar>int 0 - int r'\<bar> \<le> 3 \<and> \<bar>int 5 - int c'\<bar> \<le> 3)"
    by (auto simp: truth_row_def)
  moreover have "0 < nrows truth_row \<and> 0 < ncols truth_row \<and> 0.75 < cell truth_row 0 0 \<and>
        \<bar>int 0 - int 0\<bar> \<le> 15 \<and> \<bar>int 5 - int 0\<bar> \<le> 15"
    by (simp add: truth_row_def)
  ultimately show ?thesis
    by (subst make_block_border_mask_cell) (auto simp: truth_row_def)
qed

theorem block_border_mask_annulus_witness:
  "make_block_border_mask truth_row =
     mask_and (binary_dilation (above 0.75 truth_row) ones33 15)
              (mask_not (binary_dilation (above 0.75 truth_row) ones33 3)) \<and>
   0 < nrows truth_row \<and> 5 < ncols truth_row \<and> cell (make_block_border_mask truth_row) 0 5 \<and>
      cell (binary_dilation (above 0.75 truth_row) ones33 15) 0 5 \<and>
      \<not> cell (binary_dilation (above 0.75 truth_row) ones33 3) 0 5 \<and>
      \<not> cell (above 0.75 truth_row) 0 5"
proof -
  have s: "0 < nrows truth_row" "5 < ncols truth_row"
    by (simp_all add: truth_row_def)
  from block_border_mask_annulus[of truth_row 0 5] s truth_row_border show ?thesis
    by blast
qed

subsection \<open>The coordinate extractor\<close>

lemma set_bool_index:
  "x \<in> set (bool_index a m) \<longleftrightarrow> (\<exists>r c. r < nrows a \<and> c < ncols a \<and> cell m r c \<and> x = cell a r c)"
  by (auto simp: bool_index_def)

lemma bool_index_empty:
  assumes "\<And>r c. r < nrows a \<Longrightarrow> c < ncols a \<Longrightarrow> \<not> cell m r c"
  shows "bool_index a m = []"
proof -
  have "x \<notin> set (bool_index a m)" for x
    using assms by (auto simp: set_bool_index)
  then show ?thesis
    by (cases "bool_index a m") auto
qed

lemma in_slice_border:
  assumes "in_slice b (- b) n k"
  shows "b \<le> int k \<and> int k < int n - b"
  using assms by (auto simp: in_slice_def slice_bound_def split: if_splits)

lemma in_slice_zero: "\<not> in_slice 0 (- 0) n k"
  by (simp add: in_slice_def slice_bound_def)

lemma away_from_border_cell:
  assumes "cell (away_from_border h w border) r c"
  shows "border \<le> int r \<and> int r < int h - border \<and> border \<le> int c \<and> int c < int w - border"
  using assms in_slice_border[of border h r] in_slice_border[of border w c]
  by (simp add: away_from_border_def)

lemma binary_erosion_shape:
  "nrows (binary_erosion m s n) = nrows m" "ncols (binary_erosion m s n) = ncols m"
  by (induction n) (simp_all add: binary_erosion_def erode_step_shape)

lemma binary_closing_shape:
  "nrows (binary_closing m s) = nrows m" "ncols (binary_closing m s) = ncols m"
  by (simp_all add: binary_closing_def binary_erosion_shape binary_dilation_shape)

lemma mask_builder_shapes:
  "nrows (make_damaged_spot_mask t) = nrows t" "ncols (make_damaged_spot_mask t) = ncols t"
  "nrows (make_outside_near_damaged_spot_mask t) = nrows t"
  "ncols (make_outside_near_damaged_spot_mask t) = ncols t"
  "nrows (make_block_border_mask t) = nrows t" "ncols (make_block_border_mask t) = ncols t"
  "nrows (make_between_spot_mask t) = nrows t" "ncols (make_between_spot_mask t) = ncols t"
  by (simp_all add: make_damaged_spot_mask_def make_outside_near_damaged_spot_mask_def
      make_block_border_mask_def make_between_spot_mask_def mask_and_simps
      binary_closing_shape binary_dilation_shape above_simps)

lemma pool_of_single_image:
  assumes "(name, pool) \<in> set (get_centers_single_image truth im_no border)"
  shows "\<exists>m. nrows m = nrows truth \<and> ncols m = ncols truth \<and>
     pool = bool_index (indices (nrows truth) (ncols truth) im_no)
       (mask_and m (away_from_border (nrows truth) (ncols truth) border))"
proof -
  let ?P = "\<lambda>m. nrows m = nrows truth \<and> ncols m = ncols truth \<and>
     pool = bool_index (indices (nrows truth) (ncols truth) im_no)
       (mask_and m (away_from_border (nrows truth) (ncols truth) border))"
  from assms consider
      "?P (above 0.75 truth)" | "?P (below truth 0.25)" | "?P (make_damaged_spot_mask truth)"
    | "?P (make_outside_near_damaged_spot_mask truth)" | "?P (make_block_border_mask truth)"
    | "?P (make_between_spot_mask truth)"
    by (auto simp: get_centers_single_image_def Let_def above_simps below_simps
        mask_builder_shapes)
  then show ?thesis
    by cases blast+
qed

text \<open>
  Claim C2: every column \<open>(r, c, k)\<close> that \<open>get_centers_single_image\<close> returns, for any
  of its six categories and any integer border, has \<open>border \<le> r < height - border\<close> and
  \<open>border \<le> c < width - border\<close>.
\<close>

theorem centers_away_from_border:
  assumes "(name, pool) \<in> set (get_centers_single_image truth im_no border)"
    and "(r, c, k) \<in> set pool"
  shows "border \<le> r \<and> r < int (nrows truth) - border \<and>
         border \<le> c \<and> c < int (ncols truth) - border"
proof -
  from pool_of_single_image[OF assms(1)] obtain m where
    p: "pool = bool_index (indices (nrows truth) (ncols truth) im_no)
       (mask_and m (away_from_border (nrows truth) (ncols truth) border))" by blast
  from assms(2) obtain r' c' where
    "cell (away_from_border (nrows truth) (ncols truth) border) r' c'" "r = int r'" "c = int c'"
    unfolding p by (auto simp: set_bool_index indices_def mask_and_simps)
  with away_from_border_cell show ?thesis by blast
qed

theorem centers_away_from_border_witness:
  "(''inside'', [(1, 1, 7)]) \<in> set (get_centers_single_image truth_filled 7 1) \<and>
   (1, 1, 7) \<in> set [(1, 1, 7) :: column] \<and>
   (1 :: int) \<le> 1 \<and> (1 :: int) < int (nrows truth_filled) - 1 \<and>
   (1 :: int) \<le> 1 \<and> (1 :: int) < int (ncols truth_filled) - 1"
proof -
  have "bool_index (indices 3 3 7) (mask_and (above 0.75 truth_filled) (away_from_border 3 3 1))
          = [(1, 1, 7)]"
    by (simp add: bool_index_def indices_def mask_and_simps above_simps away_from_border_def
        in_slice_def slice_bound_def truth_filled_def upt_rec)
  then have m: "(''inside'', [(1, 1, 7)]) \<in> set (get_centers_single_image truth_filled 7 1)"
    by (simp add: get_centers_single_image_def Let_def truth_filled_def)
  have p: "(1, 1, 7) \<in> set [(1, 1, 7) :: column]"
    by simp
  from centers_away_from_border[OF m p] m show ?thesis
    by simp
qed

text \<open>
  Claim C9: with \<open>border = 0\<close> the slice \<open>0:-0\<close> is empty, so every one of the six
  coordinate arrays has no column, whatever the truth field holds.
\<close>

theorem centers_border_zero_empty:
  "get_centers_single_image truth im_no 0 =
     [(''inside'', []), (''outside'', []), (''inside_damaged'', []), (''outside_damaged'', []),
      (''block_border'', []), (''between'', [])]"
proof -
  have "bool_index a (mask_and m (away_from_border h w 0)) = []" for a :: "column array2" and m h w
    by (rule bool_index_empty) (simp add: mask_and_simps away_from_border_def in_slice_def slice_bound_def)
  then show ?thesis
    by (simp add: get_centers_single_image_def Let_def)
qed

theorem centers_border_zero_empty_witness:
  "get_centers_single_image truth_filled 7 0 =
     [(''inside'', []), (''outside'', []), (''inside_damaged'', []), (''outside_damaged'', []),
      (''block_border'', []), (''between'', [])]"
  by (rule centers_border_zero_empty)

section \<open>Properties of the corpus aggregator\<close>

lemma and_then_simps [simp]:
  "and_then (Inl e) f = Inl e" "and_then (Inr x) f = f x"
  by (simp_all add: and_then_def)

lemma and_then_Inr:
  "and_then m f = Inr y \<longleftrightarrow> (\<exists>x. m = Inr x \<and> f x = Inr y)"
  by (cases m) simp_all

lemma traverse_Cons_Inr:
  "traverse f (x # xs) = Inr ys \<longleftrightarrow>
     (\<exists>y ys'. f x = Inr y \<and> traverse f xs = Inr ys' \<and> ys = y # ys')"
  by (cases "f x"; cases "traverse f xs") auto

lemma traverse_Inr: "traverse f xs = Inr ys \<longleftrightarrow> list_all2 (\<lambda>x y. f x = Inr y) xs ys"
proof (induction xs arbitrary: ys)
  case Nil
  show ?case by auto
next
  case (Cons x xs)
  show ?case
    unfolding traverse_Cons_Inr list_all2_Cons1 Cons.IH by blast
qed

lemma traverse_map:
  assumes "\<And>x. x \<in> set xs \<Longrightarrow> f x = Inr (g x)"
  shows "traverse f xs = Inr (map g xs)"
  using assms by (induction xs) simp_all

lemma traverse_Inl:
  "(\<exists>e. traverse f xs = Inl e) \<longleftrightarrow> (\<exists>x \<in> set xs. \<exists>e. f x = Inl e)"
  by (induction xs) (auto split: sum.splits)

lemma keys_setitem:
  "keys (setitem d k v) = (if k \<in> set (keys d) then keys d else keys d @ [k])"
  by (auto simp: setitem_def keys_def case_prod_unfold comp_def intro!: map_idI)

lemma map_of_replace:
  "map_of (map (\<lambda>p. if fst p = k then (fst p, v) else p) d) x =
     (if x = k \<and> k \<in> fst ` set d then Some v else map_of d x)"
  by (induction d) (force simp: image_iff)+

lemma map_of_setitem: "map_of (setitem d k v) = (map_of d)(k \<mapsto> v)"
proof (cases "k \<in> set (keys d)")
  case True
  then have "setitem d k v = map (\<lambda>p. if fst p = k then (fst p, v) else p) d"
    by (simp add: setitem_def case_prod_unfold)
  with True show ?thesis
    by (simp add: fun_eq_iff map_of_replace keys_def)
next
  case False
  then have "map_of d k = None"
    by (simp add: map_of_eq_None_iff keys_def)
  with False show ?thesis
    by (auto simp: setitem_def fun_eq_iff map_add_def split: option.splits)
qed

lemma getitem_Inr: "getitem d k = Inr v \<longleftrightarrow> map_of d k = Some v"
  by (simp add: getitem_def split: option.splits)

lemma getitem_Inl: "getitem d k = Inl e \<longleftrightarrow> e = KeyError \<and> k \<notin> set (keys d)"
proof -
  have "map_of d k = None \<longleftrightarrow> k \<notin> set (keys d)"
    by (simp add: map_of_eq_None_iff keys_def)
  then show ?thesis
    by (cases "map_of d k") (auto simp: getitem_def)
qed

lemma getitem_key:
  assumes "k \<in> set (keys d)"
  shows "\<exists>v. getitem d k = Inr v"
  using assms getitem_Inl[of d k] by (cases "getitem d k") auto

lemma get_centers_loop_succeeds:
  assumes "centers \<noteq> []" "\<And>cs. cs \<in> set centers \<Longrightarrow> set names \<subseteq> set (keys cs)"
  shows "\<exists>res. get_centers_loop centers names result = Inr res"
  using assms
proof (induction names arbitrary: result)
  case Nil
  then show ?case by simp
next
  case (Cons name names)
  have "\<exists>e. traverse (\<lambda>cs. getitem cs name) centers = Inl e \<Longrightarrow> False"
    unfolding traverse_Inl using Cons.prems(2) by (auto simp: getitem_Inl)
  then obtain arrays where a: "traverse (\<lambda>cs. getitem cs name) centers = Inr arrays"
    by (cases "traverse (\<lambda>cs. getitem cs name) centers") auto
  then have "length arrays = length centers"
    by (auto simp: traverse_Inr dest: list_all2_lengthD)
  with Cons.prems(1) have c: "concatenate arrays = Inr (concat arrays)"
    by (auto simp: concatenate_def)
  from Cons.IH[OF Cons.prems(1), of "setitem result name (concat arrays)"] Cons.prems(2)
  show ?case
    by (auto simp: a c)
qed

lemma get_centers_loop_Inr:
  assumes "get_centers_loop centers names result = Inr res" "distinct names"
    "set names \<inter> set (keys result) = {}"
  shows "keys res = keys result @ names \<and>
     (\<forall>name \<in> set names. \<exists>arrays.
         list_all2 (\<lambda>cs a. map_of cs name = Some a) centers arrays \<and>
         map_of res name = Some (concat arrays)) \<and>
     (\<forall>k. k \<notin> set names \<longrightarrow> map_of res k = map_of result k)"
  using assms
proof (induction names arbitrary: result)
  case Nil
  then show ?case by simp
next
  case (Cons name names)
  from Cons.prems(1) obtain arrays where
    a: "traverse (\<lambda>cs. getitem cs name) centers = Inr arrays" and
    r: "get_centers_loop centers names (setitem result name (concat arrays)) = Inr res"
    by (auto simp: and_then_Inr concatenate_def split: if_splits)
  let ?result = "setitem result name (concat arrays)"
  from Cons.prems(3) have k: "keys ?result = keys result @ [name]"
    by (simp add: keys_setitem)
  with Cons.prems(2,3) have d: "distinct names" "set names \<inter> set (keys ?result) = {}"
    by auto
  note ih = Cons.IH[OF r d]
  from a have l: "list_all2 (\<lambda>cs a. map_of cs name = Some a) centers arrays"
    by (simp add: traverse_Inr getitem_Inr)
  from Cons.prems(2) have "name \<notin> set names" by simp
  with ih have "map_of res name = Some (concat arrays)"
    by (simp add: map_of_setitem)
  with ih l k show ?case
    by (auto simp: map_of_setitem)
qed

lemma keys_get_centers_single_image:
  "keys (get_centers_single_image truth im_no border) = category_names"
  by (simp add: get_centers_single_image_def keys_def category_names_def Let_def)

lemma get_centers_Inr:
  assumes "truths \<noteq> []"
  shows "\<exists>result. get_centers truths border = Inr result \<and> keys result = category_names \<and>
     (\<forall>name \<in> set category_names. \<exists>arrays.
         list_all2 (\<lambda>(i, truth) a.
             map_of (get_centers_single_image truth (int i) border) name = Some a)
           (enumerate 0 truths) arrays \<and>
         map_of result name = Some (concat arrays))"
proof -
  let ?f = "\<lambda>(i, truth). get_centers_single_image truth (int i) border"
  let ?centers = "map ?f (enumerate 0 truths)"
  from assms obtain t ts where t: "truths = t # ts"
    by (cases truths) auto
  then have c: "?centers = get_centers_single_image t (int 0) border # map ?f (enumerate (Suc 0) ts)"
    by simp
  have g: "get_centers truths border = get_centers_loop ?centers category_names []"
    unfolding get_centers_def Let_def c by (simp add: keys_get_centers_single_image)
  have "\<And>cs. cs \<in> set ?centers \<Longrightarrow> set category_names \<subseteq> set (keys cs)"
    by (auto simp: keys_get_centers_single_image)
  moreover have "?centers \<noteq> []" by (simp add: t)
  ultimately obtain res where r: "get_centers_loop ?centers category_names [] = Inr res"
    using get_centers_loop_succeeds[of ?centers category_names "[]"] by blast
  have "distinct category_names" by (simp add: category_names_def)
  from get_centers_loop_Inr[OF r this] have
    "keys res = category_names"
    "\<forall>name \<in> set category_names. \<exists>arrays.
         list_all2 (\<lambda>cs a. map_of cs name = Some a) ?centers arrays \<and>
         map_of res name = Some (concat arrays)"
    by (simp_all add: keys_def)
  then show ?thesis
    unfolding g r by (simp add: list_all2_map1 case_prod_unfold)
qed

text \<open>
  Claim C7: for a non-empty sequence of truth fields and each of the six categories,
  \<open>get_centers\<close> returns a dict whose pool for that category is the concatenation of
  the per-image arrays of \<open>get_centers_single_image\<close>, images numbered from 0 in input
  order; its number of columns is the sum of theirs.
\<close>

theorem get_centers_concatenates:
  assumes "truths \<noteq> []" "name \<in> set category_names"
  shows "\<exists>result pool arrays. get_centers truths border = Inr result \<and>
     map_of result name = Some pool \<and>
     list_all2 (\<lambda>(i, truth) a.
         map_of (get_centers_single_image truth (int i) border) name = Some a)
       (enumerate 0 truths) arrays \<and>
     pool = concat arrays \<and> length pool = sum_list (map length arrays)"
proof -
  from get_centers_Inr[OF assms(1), of border] obtain result where
    r: "get_centers truths border = Inr result" and
    a: "\<forall>name \<in> set category_names. \<exists>arrays.
         list_all2 (\<lambda>(i, truth) a.
             map_of (get_centers_single_image truth (int i) border) name = Some a)
           (enumerate 0 truths) arrays \<and>
         map_of result name = Some (concat arrays)"
    by blast
  from a assms(2) obtain arrays where
    "list_all2 (\<lambda>(i, truth) a.
         map_of (get_centers_single_image truth (int i) border) name = Some a)
       (enumerate 0 truths) arrays" "map_of result name = Some (concat arrays)"
    by blast
  with r show ?thesis
    by (intro exI[of _ result] exI[of _ "concat arrays"] exI[of _ arrays])
       (simp add: length_concat)
qed

text \<open>
  Claim C10: \<open>get_centers\<close> fails on an empty sequence of truth fields (the IndexError
  of \<open>centers[0]\<close>); on a non-empty one it returns a dict whose keys are exactly the six
  category names.
\<close>

theorem get_centers_needs_an_image:
  "get_centers [] border = Inl IndexError \<and>
   (truths \<noteq> [] \<longrightarrow>
      (\<exists>result. get_centers truths border = Inr result \<and> keys result = category_names))"
  using get_centers_Inr[of truths border]
  by (auto simp: get_centers_def)


lemma inside_pool_truth_filled:
  "map_of (get_centers_single_image truth_filled im_no 1) ''inside'' = Some [(1, 1, im_no)]"
proof -
  have "bool_index (indices 3 3 im_no)
          (mask_and (above 0.75 truth_filled) (away_from_border 3 3 1)) = [(1, 1, im_no)]"
    by (simp add: bool_index_def indices_def mask_and_simps above_simps away_from_border_def
        in_slice_def slice_bound_def truth_filled_def upt_rec)
  then show ?thesis
    by (simp add: get_centers_single_image_def Let_def truth_filled_def)
qed

theorem get_centers_concatenates_witness:
  "[truth_filled, truth_filled] \<noteq> [] \<and> ''inside'' \<in> set category_names \<and>
   (\<exists>result. get_centers [truth_filled, truth_filled] 1 = Inr result \<and>
      map_of result ''inside'' = Some [(1, 1, 0), (1, 1, 1)])"
proof -
  have n: "[truth_filled, truth_filled] \<noteq> []" by simp
  have c: "''inside'' \<in> set category_names" by (simp add: category_names_def)
  from get_centers_concatenates[OF n c, of 1] obtain result pool arrays where
    r: "get_centers [truth_filled, truth_filled] 1 = Inr result"
      "map_of result ''inside'' = Some pool" "pool = concat arrays" and
    l: "list_all2 (\<lambda>(i, truth) a.
         map_of (get_centers_single_image truth (int i) 1) ''inside'' = Some a)
       (enumerate 0 [truth_filled, truth_filled]) arrays"
    by blast
  from l have "arrays = [[(1, 1, 0)], [(1, 1, 1)]]"
    by (auto simp: list_all2_Cons1 inside_pool_truth_filled)
  with r n c show ?thesis by simp
qed

theorem get_centers_needs_an_image_witness:
  "get_centers [] 1 = Inl IndexError \<and> [truth_filled] \<noteq> [] \<and>
   (\<exists>result. get_centers [truth_filled] 1 = Inr result \<and> keys result = category_names)"
  using get_centers_needs_an_image[of 1 "[truth_filled]"] by simp

section \<open>Properties of the double-precision arithmetic\<close>

lemma dyadic_powr: "dyadic m e = of_int m * 2 powr (of_int e)"
proof (cases "0 \<le> e")
  case True
  then have "(2::real) powr of_int e = 2 ^ nat e"
    by (simp add: powr_int)
  with True show ?thesis by (simp add: dyadic_def)
next
  case False
  then have "(2::real) powr of_int e = 1 / 2 ^ nat (- e)"
    by (simp add: powr_int)
  with False show ?thesis by (simp add: dyadic_def)
qed

lemma round_half_even_nonneg:
  assumes "0 \<le> m" "0 < d"
  shows "0 \<le> round_half_even m d"
proof -
  from assms have "0 \<le> m div d"
    by (simp add: pos_imp_zdiv_nonneg_iff)
  then show ?thesis
    by (simp add: round_half_even_def Let_def)
qed

lemma round_half_even_le:
  assumes "m \<le> c * d" "0 < d"
  shows "round_half_even m d \<le> c"
proof (cases "m div d < c")
  case True
  then show ?thesis
    by (simp add: round_half_even_def Let_def)
next
  case False
  from assms have "m div d \<le> c"
    by (metis zdiv_mono1 nonzero_mult_div_cancel_right less_irrefl)
  with False have q: "m div d = c" by simp
  have "m = d * (m div d) + m mod d" by simp
  with q assms have "m mod d \<le> 0"
    by (simp add: mult.commute)
  moreover from assms(2) have "0 \<le> m mod d" by simp
  ultimately have "m mod d = 0" by simp
  with q assms(2) show ?thesis
    by (simp add: round_half_even_def Let_def)
qed

lemma bitlen_powr:
  assumes "0 < m"
  shows "2 powr (of_int (bitlen m - 1)) \<le> real_of_int m"
proof -
  from assms have b: "1 \<le> bitlen m"
    by (simp add: bitlen_alt_def)
  from bitlen_bounds[OF assms] have "2 ^ nat (bitlen m - 1) \<le> m" ..
  then have "(2::real) ^ nat (bitlen m - 1) \<le> real_of_int m"
    by (metis of_int_le_iff of_int_numeral of_int_power)
  moreover from b have "(2::real) powr of_int (bitlen m - 1) = 2 ^ nat (bitlen m - 1)"
    by (subst powr_int) simp_all
  ultimately show ?thesis by (simp only:)
qed

lemma round_double_bounded:
  assumes "0 \<le> m" "dyadic m e \<le> real c" "c < 2 ^ 53"
  shows "\<exists>q e'. round_double m e = Finite q e' \<and> 0 \<le> q \<and> dyadic q e' \<le> real c"
proof (cases "m = 0")
  case True
  then show ?thesis
    by (simp add: round_double_def dyadic_def)
next
  case False
  with assms(1) have pos: "0 < m" by simp
  define b where "b = bitlen m"
  define k where "k = max (b - 53) (- 1074 - e)"
  have abs: "\<bar>m\<bar> = m" using pos by simp
  have "2 powr (of_int (b - 1)) * 2 powr (of_int e) \<le> real_of_int m * 2 powr (of_int e)"
    unfolding b_def using bitlen_powr[OF pos] by (simp add: mult_right_mono)
  also have "\<dots> \<le> real c"
    using assms(2) by (simp add: dyadic_powr)
  also have "\<dots> < 2 ^ 53"
    using assms(3) by (metis of_nat_less_iff of_nat_numeral of_nat_power)
  finally have "(2::real) powr (of_int (b - 1) + of_int e) < 2 ^ 53"
    by (simp only: powr_add)
  also have "(2::real) ^ 53 = 2 powr (of_int 53)"
    by (subst powr_int) simp_all
  finally have "real_of_int (b - 1) + real_of_int e < real_of_int 53"
    by (simp only: powr_less_cancel_iff one_less_numeral_iff semiring_norm)
  then have F1: "b + e \<le> 53"
    by linarith
  show ?thesis
  proof (cases "k \<le> 0")
    case True
    with F1 pos have "round_double m e = Finite m e"
      by (simp add: round_double_def Let_def abs k_def b_def)
    with assms show ?thesis by simp
  next
    case k: False
    define j where "j = nat (- (e + k))"
    from F1 have ek: "e + k \<le> 0"
      by (simp add: k_def)
    then have e: "e = - int j - k" and j: "e + k = - int j"
      by (simp_all add: j_def)
    from k have kpos: "0 < k" by simp
    define q where "q = round_half_even m (2 ^ nat k)"
    have "real_of_int m * 2 powr (of_int e) \<le> real c"
      using assms(2) by (simp add: dyadic_powr)
    moreover have "(2::real) powr (of_int e) = 1 / (2 ^ j * 2 ^ nat k)"
    proof -
      have "e = - int (j + nat k)" using e kpos by simp
      then have "(2::real) powr (of_int e) = inverse (2 powr real (j + nat k))"
        by (simp only: of_int_minus of_int_of_nat_eq powr_minus)
      also have "\<dots> = inverse (2 ^ (j + nat k))"
        by (simp only: powr_realpow zero_less_numeral)
      also have "\<dots> = 1 / (2 ^ j * 2 ^ nat k)"
        by (simp add: power_add inverse_eq_divide)
      finally show ?thesis .
    qed
    ultimately have "real_of_int m \<le> real c * (2 ^ j * 2 ^ nat k)"
      by (simp add: field_simps)
    also have "\<dots> = real_of_int ((int c * 2 ^ j) * 2 ^ nat k)"
      by simp
    finally have mle: "m \<le> (int c * 2 ^ j) * 2 ^ nat k"
      by (simp only: of_int_le_iff)
    have q1: "q \<le> int c * 2 ^ j"
      unfolding q_def by (rule round_half_even_le[OF mle]) simp
    have q0: "0 \<le> q"
      unfolding q_def by (rule round_half_even_nonneg[OF assms(1)]) simp
    have "int c < 2 ^ 53"
      using assms(3) by (metis of_nat_less_iff of_nat_numeral of_nat_power)
    then have "int c * 2 ^ j < 2 ^ 53 * 2 ^ j"
      by (simp only: mult_less_cancel_right_pos zero_less_power zero_less_numeral)
    with q1 have "q < 2 ^ 53 * 2 ^ j"
      by (rule le_less_trans)
    then have "q < 2 ^ (53 + j)"
      by (simp only: power_add)
    then have "q < 2 ^ nat (53 + int j)"
      by (simp add: nat_add_distrib)
    then have "bitlen q \<le> 53 + int j"
      by (simp add: bitlen_le_iff_power)
    then have ov: "\<not> 1024 < bitlen \<bar>q\<bar> + (e + k)"
      using q0 j by simp
    have r: "round_double m e = Finite q (e + k)"
      using False k ov by (simp add: round_double_def Let_def abs k_def[symmetric] b_def[symmetric] q_def[symmetric])
    have "dyadic q (e + k) = real_of_int q / 2 ^ j"
      by (simp add: dyadic_powr j powr_minus divide_inverse powr_realpow)
    also have "\<dots> \<le> real c"
    proof -
      from q1 have "real_of_int q \<le> real_of_int (int c * 2 ^ j)"
        by (simp only: of_int_le_iff)
      then have "real_of_int q \<le> real c * 2 ^ j" by simp
      then show ?thesis by (simp add: field_simps)
    qed
    finally have "dyadic q (e + k) \<le> real c" .
    with r q0 show ?thesis by blast
  qed
qed


lemma two_powr_diff:
  assumes "e0 \<le> e1"
  shows "(2::real) ^ nat (e1 - e0) * 2 powr (of_int e0) = 2 powr (of_int e1)"
proof -
  from assms have "(2::real) ^ nat (e1 - e0) = 2 powr (of_int (e1 - e0))"
    by (subst powr_int) simp_all
  then have "(2::real) ^ nat (e1 - e0) * 2 powr (of_int e0) =
      2 powr (of_int (e1 - e0) + of_int e0)"
    by (simp only: powr_add)
  also have "of_int (e1 - e0) + of_int e0 = (of_int e1 :: real)"
    by simp
  finally show ?thesis .
qed

lemma dyadic_sub:
  assumes "e0 \<le> e1" "e0 \<le> e2"
  shows "dyadic (a * 2 ^ nat (e1 - e0) - b * 2 ^ nat (e2 - e0)) e0 = dyadic a e1 - dyadic b e2"
proof -
  have "dyadic (a * 2 ^ nat (e1 - e0) - b * 2 ^ nat (e2 - e0)) e0 =
      of_int a * (2 ^ nat (e1 - e0) * 2 powr (of_int e0)) -
      of_int b * (2 ^ nat (e2 - e0) * 2 powr (of_int e0))"
    by (simp add: dyadic_powr algebra_simps)
  then show ?thesis
    by (simp only: two_powr_diff[OF assms(1)] two_powr_diff[OF assms(2)] dyadic_powr)
qed

lemma dyadic_mult: "dyadic (a * b) (e1 + e2) = dyadic a e1 * dyadic b e2"
  by (simp add: dyadic_powr powr_add)

lemma dyadic_nonneg_iff: "0 \<le> dyadic m e \<longleftrightarrow> 0 \<le> m"
  by (simp add: dyadic_powr zero_le_mult_iff)

lemma py_int_bounded:
  assumes "0 \<le> q" "dyadic q e \<le> real c"
  shows "\<exists>n. py_int (Finite q e) = Inr n \<and> 0 \<le> n \<and> n \<le> int c"
proof (cases "0 \<le> e")
  case True
  with assms(2) have "real_of_int (q * 2 ^ nat e) \<le> real_of_int (int c)"
    by (simp add: dyadic_def)
  then have "q * 2 ^ nat e \<le> int c"
    by (simp only: of_int_le_iff)
  with True assms(1) show ?thesis by simp
next
  case False
  let ?d = "2 ^ nat (- e) :: int"
  have "real_of_int (q div ?d) = real_of_int \<lfloor>real_of_int q / real_of_int ?d\<rfloor>"
    by (simp only: floor_divide_of_int_eq)
  also have "\<dots> \<le> real_of_int q / real_of_int ?d"
    by (rule of_int_floor_le)
  also have "\<dots> = dyadic q e"
    using False by (simp add: dyadic_def)
  finally have "real_of_int (q div ?d) \<le> real_of_int (int c)"
    using assms(2) by simp
  then have "q div ?d \<le> int c"
    by (simp only: of_int_le_iff)
  moreover from assms(1) have "0 \<le> q div ?d"
    by (simp add: pos_imp_zdiv_nonneg_iff)
  ultimately show ?thesis
    using False assms(1) by simp
qed

lemma float_of_one: "float_of_nat 1 = Inr (Finite 1 0)"
proof -
  have "round_double 1 0 = Finite 1 0" by code_simp
  then show ?thesis by (simp add: float_of_nat_def)
qed

lemma fraction_split_index:
  assumes "is_fraction test_split" "n < 2 ^ 53"
  shows "\<exists>k. n_training test_split n = Inr k \<and> 0 \<le> k \<and> k \<le> int n"
proof -
  from assms(1) obtain m e where s: "test_split = Finite m e" and m: "0 \<le> m"
    and le: "dyadic m e \<le> 1"
    by (cases test_split) auto
  define e0 where "e0 = min 0 e"
  define d where "d = 1 * 2 ^ nat (0 - e0) - m * 2 ^ nat (e - e0)"
  have "dyadic d e0 = dyadic 1 0 - dyadic m e"
    unfolding d_def by (rule dyadic_sub) (simp_all add: e0_def)
  also have "dyadic 1 0 = 1" by (simp add: dyadic_def)
  finally have dv: "dyadic d e0 = 1 - dyadic m e" .
  from m have "0 \<le> dyadic m e" by (simp add: dyadic_nonneg_iff)
  with dv le have "0 \<le> dyadic d e0" "dyadic d e0 \<le> real (1::nat)" by simp_all
  then have "0 \<le> d" "dyadic d e0 \<le> real (1::nat)"
    by (simp_all add: dyadic_nonneg_iff)
  from round_double_bounded[OF this] obtain q1 e1 where
    r1: "round_double d e0 = Finite q1 e1" "0 \<le> q1" "dyadic q1 e1 \<le> 1"
    by auto
  have "0 \<le> int n" "dyadic (int n) 0 \<le> real n"
    by (simp_all add: dyadic_def)
  from round_double_bounded[OF this assms(2)] obtain q2 e2 where
    r2: "round_double (int n) 0 = Finite q2 e2" "0 \<le> q2" "dyadic q2 e2 \<le> real n"
    by auto
  from r1(2) r2(2) have "0 \<le> dyadic q1 e1" "0 \<le> dyadic q2 e2"
    by (simp_all add: dyadic_nonneg_iff)
  with r1(3) r2(3) have "dyadic q1 e1 * dyadic q2 e2 \<le> 1 * real n"
    by (intro mult_mono) simp_all
  then have "dyadic (q1 * q2) (e1 + e2) \<le> real n"
    by (simp add: dyadic_mult)
  moreover from r1(2) r2(2) have "0 \<le> q1 * q2" by simp
  ultimately obtain q3 e3 where
    r3: "round_double (q1 * q2) (e1 + e2) = Finite q3 e3" "0 \<le> q3" "dyadic q3 e3 \<le> real n"
    using round_double_bounded[OF _ _ assms(2)] by blast
  have f1: "fsub (Finite 1 0) (Finite m e) = Finite q1 e1"
    unfolding fsub.simps(1) Let_def using r1(1) by (simp only: d_def e0_def)
  have f2: "float_of_nat n = Inr (Finite q2 e2)"
    by (simp add: float_of_nat_def r2(1))
  have f3: "fmul (Finite q1 e1) (Finite q2 e2) = Finite q3 e3"
    by (simp only: fmul.simps(1) r3(1))
  have "n_training test_split n = py_int (Finite q3 e3)"
    by (simp only: n_training_def and_then_def sum.case s float_of_one f1 f2 f3)
  with py_int_bounded[OF r3(2,3)] show ?thesis by simp
qed

section \<open>Properties of the balanced sampler\<close>

lemma traverse_comp: "traverse f (map h xs) = traverse (\<lambda>x. f (h x)) xs"
  by (induction xs) (simp_all split: sum.splits)

lemma traverse_Inl_D:
  assumes "traverse f xs = Inl e"
  shows "\<exists>x \<in> set xs. f x = Inl e"
  using assms by (induction xs) (auto split: sum.splits)

lemma dict_comp_entries:
  assumes "\<And>name v. (name, v) \<in> set d \<Longrightarrow> f name = Inr (g name v)"
  shows "dict_comp f (keys d) = Inr (map (\<lambda>(name, v). (name, g name v)) d)"
proof -
  have "traverse (\<lambda>x. and_then (f (fst x)) (\<lambda>v. Inr (fst x, v))) d =
        Inr (map (\<lambda>(name, v). (name, g name v)) d)"
    by (rule traverse_map) (use assms in auto)
  then show ?thesis
    by (simp add: dict_comp_def keys_def traverse_comp)
qed

lemma dict_comp_Inl_D:
  assumes "dict_comp f names = Inl e"
  shows "\<exists>name \<in> set names. f name = Inl e"
proof -
  from traverse_Inl_D[OF assms[unfolded dict_comp_def]] obtain name where
    "name \<in> set names" "and_then (f name) (\<lambda>v. Inr (name, v)) = Inl e" by blast
  then show ?thesis
    by (cases "f name") auto
qed

lemma dict_comp_fails:
  assumes "name \<in> set names" "f name = Inl e"
  shows "\<exists>e'. dict_comp f names = Inl e'"
  unfolding dict_comp_def traverse_Inl using assms by force

lemma getitem_entry:
  assumes "distinct (keys d)" "(name, v) \<in> set d"
  shows "getitem d name = Inr v"
  using assms by (simp add: getitem_Inr keys_def)

lemma getitem_mapped:
  assumes "distinct (keys d)" "(name, v) \<in> set d"
  shows "getitem (map (\<lambda>(name, v). (name, g name v)) d) name = Inr (g name v)"
proof -
  have "keys (map (\<lambda>(name, v). (name, g name v)) d) = keys d"
    by (simp add: keys_def case_prod_unfold comp_def)
  moreover have "(name, g name v) \<in> set (map (\<lambda>(name, v). (name, g name v)) d)"
    using assms(2) by force
  ultimately show ?thesis
    using assms(1) by (simp add: getitem_entry)
qed

lemma concatenate_sets_mapped:
  assumes "centers \<noteq> []" "distinct (keys centers)"
  shows "concatenate_sets centers (map (\<lambda>(name, pool). (name, g name pool)) centers) =
     Inr (concat (map (\<lambda>(name, pool). g name pool) centers))"
proof -
  let ?sets = "map (\<lambda>(name, pool). (name, g name pool)) centers"
  have "traverse (\<lambda>x. getitem ?sets (fst x)) centers = Inr (map (\<lambda>(name, pool). g name pool) centers)"
    by (rule traverse_map) (use assms(2) in \<open>auto simp: getitem_mapped\<close>)
  with assms(1) show ?thesis
    by (simp add: concatenate_sets_def keys_def traverse_comp concatenate_def)
qed

lemma starved_iff:
  "starved quotas centers \<longleftrightarrow>
     (\<exists>name pool quota. (name, pool) \<in> set centers \<and> pool = [] \<and>
        map_of quotas name = Some quota \<and> 0 < quota)"
proof
  assume "starved quotas centers"
  then obtain name pool where e: "(name, pool) \<in> set centers" "pool = []"
    "case map_of quotas name of None \<Rightarrow> False | Some quota \<Rightarrow> 0 < quota"
    unfolding starved_def list_ex_iff by blast
  from e(3) obtain quota where "map_of quotas name = Some quota" "0 < quota"
    by (cases "map_of quotas name") auto
  with e(1,2) show "\<exists>name pool quota. (name, pool) \<in> set centers \<and> pool = [] \<and>
        map_of quotas name = Some quota \<and> 0 < quota"
    by blast
next
  assume "\<exists>name pool quota. (name, pool) \<in> set centers \<and> pool = [] \<and>
        map_of quotas name = Some quota \<and> 0 < quota"
  then obtain name pool quota where e: "(name, pool) \<in> set centers" "pool = []"
    "map_of quotas name = Some quota" "0 < quota" by blast
  then have "(\<lambda>(name, pool). pool = [] \<and>
      (case map_of quotas name of None \<Rightarrow> False | Some quota \<Rightarrow> 0 < quota)) (name, pool)"
    by simp
  with e(1) show "starved quotas centers"
    unfolding starved_def list_ex_iff by blast
qed

lemma sampler_input_lookup:
  assumes "sampler_input quotas centers" "(name, pool) \<in> set centers"
  shows "getitem centers name = Inr pool"
    and "\<exists>quota. map_of quotas name = Some quota"
    and "\<exists>label. map_of LABEL_ENUM name = Some label \<and> (label = 0 \<or> label = 1)"
proof -
  from assms show "getitem centers name = Inr pool"
    by (simp add: sampler_input_def getitem_entry)
  from assms(2) have "name \<in> set (keys centers)"
    by (force simp: keys_def)
  with assms(1) have k: "name \<in> set (keys quotas)" "name \<in> set (keys LABEL_ENUM)"
    by (auto simp: sampler_input_def)
  from k(1) show "\<exists>quota. map_of quotas name = Some quota"
    using getitem_key[of name quotas] by (auto simp: getitem_Inr)
  from k(2) show "\<exists>label. map_of LABEL_ENUM name = Some label \<and> (label = 0 \<or> label = 1)"
    by (auto simp: LABEL_ENUM_def keys_def)
qed

lemma draw_choices_ok:
  assumes "sampler_input quotas centers"
    and "\<And>name pool. (name, pool) \<in> set centers \<Longrightarrow> pool = [] \<Longrightarrow> map_of quotas name = Some 0"
  shows "draw_choices quotas centers rng =
     Inr (map (\<lambda>(name, pool). (name, drawn quotas rng name pool)) centers)"
  unfolding draw_choices_def
proof (rule dict_comp_entries)
  fix name pool
  assume e: "(name, pool) \<in> set centers"
  from sampler_input_lookup(2)[OF assms(1) e] obtain quota where
    q: "map_of quotas name = Some quota" by blast
  with assms(2)[OF e] have "pool = [] \<Longrightarrow> quota = 0" by simp
  then have "random_choice rng name [0..<length pool] quota =
      Inr (drawn quotas rng name pool)"
    by (auto simp: random_choice_def drawn_def q)
  with q sampler_input_lookup(1)[OF assms(1) e]
  show "and_then (getitem centers name) (\<lambda>pool.
          and_then (getitem quotas name) (\<lambda>quota.
            random_choice rng name [0..<length pool] quota)) =
        Inr (drawn quotas rng name pool)"
    by (simp add: getitem_def)
qed

lemma draw_choices_fails:
  assumes "sampler_input quotas centers"
    and "(name, pool) \<in> set centers" "pool = []" "map_of quotas name = Some quota" "0 < quota"
  shows "draw_choices quotas centers rng = Inl ValueError"
proof -
  let ?f = "\<lambda>name. and_then (getitem centers name) (\<lambda>pool.
          and_then (getitem quotas name) (\<lambda>quota.
            random_choice rng name [0..<length pool] quota))"
  have only: "e = ValueError" if "n \<in> set (keys centers)" "?f n = Inl e" for n e
  proof -
    from that(1) obtain p where p: "(n, p) \<in> set centers"
      by (auto simp: keys_def)
    from sampler_input_lookup(2)[OF assms(1) p] obtain q where "map_of quotas n = Some q"
      by blast
    with that(2) sampler_input_lookup(1)[OF assms(1) p] show ?thesis
      by (auto simp: getitem_def random_choice_def split: if_splits)
  qed
  from assms(2) have k: "name \<in> set (keys centers)"
    by (force simp: keys_def)
  have "getitem centers name = Inr pool" "getitem quotas name = Inr quota"
    using sampler_input_lookup(1)[OF assms(1,2)] assms(4) by (simp_all add: getitem_Inr)
  with assms(3,5) have "?f name = Inl ValueError"
    by (simp add: random_choice_def)
  from dict_comp_fails[of name "keys centers" ?f, OF k this] obtain e where e: "dict_comp ?f (keys centers) = Inl e"
    by blast
  from dict_comp_Inl_D[OF e] only have "e = ValueError" by blast
  with e show ?thesis
    by (simp add: draw_choices_def)
qed

lemma select_center_sets_ok:
  assumes "sampler_input quotas centers"
    and "\<And>name pool. (name, pool) \<in> set centers \<Longrightarrow>
           list_all (\<lambda>i. i < length pool) (drawn quotas rng name pool)"
  shows "select_center_sets centers (map (\<lambda>(name, pool). (name, drawn quotas rng name pool)) centers) =
     Inr (map (\<lambda>(name, pool). (name, map (\<lambda>i. pool ! i) (drawn quotas rng name pool))) centers)"
  unfolding select_center_sets_def
proof (rule dict_comp_entries)
  fix name pool
  assume e: "(name, pool) \<in> set centers"
  from assms(1) have d: "distinct (keys centers)"
    by (simp add: sampler_input_def)
  show "and_then (getitem centers name) (\<lambda>pool.
          and_then (getitem (map (\<lambda>(name, pool). (name, drawn quotas rng name pool)) centers) name)
            (\<lambda>idx. index_by pool idx)) =
        Inr (map (\<lambda>i. pool ! i) (drawn quotas rng name pool))"
    using sampler_input_lookup(1)[OF assms(1) e] assms(2)[OF e]
      getitem_mapped[OF d e, of "\<lambda>name pool. drawn quotas rng name pool"]
    by (simp add: index_by_def)
qed

lemma make_label_sets_ok:
  assumes "sampler_input quotas centers"
  shows "make_label_sets quotas centers =
     Inr (map (\<lambda>(name, pool). (name, replicate (the (map_of quotas name))
                                           (the (map_of LABEL_ENUM name)))) centers)"
  unfolding make_label_sets_def
proof (rule dict_comp_entries)
  fix name pool
  assume e: "(name, pool) \<in> set centers"
  from sampler_input_lookup(2,3)[OF assms e]
  show "and_then (getitem LABEL_ENUM name) (\<lambda>label.
          and_then (getitem quotas name) (\<lambda>quota. Inr (replicate quota label))) =
        Inr (replicate (the (map_of quotas name)) (the (map_of LABEL_ENUM name)))"
    by (auto simp: getitem_def)
qed

lemma choices_ok_entry:
  assumes "choices_ok quotas centers rng" "(name, pool) \<in> set centers"
    "map_of quotas name = Some quota" "pool \<noteq> [] \<or> quota = 0"
  shows "length (drawn quotas rng name pool) = quota"
    and "list_all (\<lambda>i. i < length pool) (drawn quotas rng name pool)"
proof -
  from assms have c: "choice_contract (drawn quotas rng name pool) [0..<length pool] quota"
    by (auto simp: choices_ok_def list_all_iff drawn_def)
  then show "length (drawn quotas rng name pool) = quota"
    by (simp add: choice_contract_def)
  from c show "list_all (\<lambda>i. i < length pool) (drawn quotas rng name pool)"
    by (auto simp: choice_contract_def list_all_iff)
qed

lemma sample_sets_ok:
  assumes inp: "sampler_input quotas centers"
    and ok: "choices_ok quotas centers rng"
    and ns: "\<not> starved quotas centers"
  shows "sample_sets quotas centers rng =
     Inr (concat (map (\<lambda>(name, pool). map (\<lambda>i. pool ! i) (drawn quotas rng name pool)) centers),
          concat (map (\<lambda>(name, pool). replicate (the (map_of quotas name))
                                                  (the (map_of LABEL_ENUM name))) centers))"
proof -
  have q: "pool \<noteq> [] \<or> the (map_of quotas name) = 0" "map_of quotas name = Some (the (map_of quotas name))"
    if e: "(name, pool) \<in> set centers" for name pool
  proof -
    from sampler_input_lookup(2)[OF inp e] obtain quota where
      m: "map_of quotas name = Some quota" by blast
    then show "map_of quotas name = Some (the (map_of quotas name))" by simp
    show "pool \<noteq> [] \<or> the (map_of quotas name) = 0"
    proof (cases "0 < quota")
      case True
      with ns e m show ?thesis by (auto simp: starved_iff)
    next
      case False
      with m show ?thesis by simp
    qed
  qed
  have 1: "draw_choices quotas centers rng =
     Inr (map (\<lambda>(name, pool). (name, drawn quotas rng name pool)) centers)"
  proof (rule draw_choices_ok[OF inp])
    fix name pool
    assume "(name, pool) \<in> set centers" "pool = []"
    with q[of name pool] show "map_of quotas name = Some 0"
      by simp
  qed
  have 2: "select_center_sets centers (map (\<lambda>(name, pool). (name, drawn quotas rng name pool)) centers) =
     Inr (map (\<lambda>(name, pool). (name, map (\<lambda>i. pool ! i) (drawn quotas rng name pool))) centers)"
    by (rule select_center_sets_ok[OF inp]) (use choices_ok_entry(2)[OF ok] q in blast)
  from inp have d: "centers \<noteq> []" "distinct (keys centers)"
    by (simp_all add: sampler_input_def)
  show ?thesis
    by (simp add: sample_sets_def 1 2 make_label_sets_ok[OF inp] concatenate_sets_mapped[OF d])
qed

lemma sample_sets_fails:
  assumes "sampler_input quotas centers"
    and "(name, pool) \<in> set centers" "pool = []" "map_of quotas name = Some quota" "0 < quota"
  shows "sample_sets quotas centers rng = Inl ValueError"
  by (simp add: sample_sets_def draw_choices_fails[OF assms])

lemma sum_quotas:
  assumes "sampler_input quotas centers"
  shows "(\<Sum>(name, pool)\<leftarrow>centers. the (map_of quotas name)) = sum_list (map snd quotas)"
proof -
  let ?q = "\<lambda>name. the (map_of quotas name)"
  have "mset (keys centers) = mset (keys quotas)"
    using assms set_eq_iff_mset_eq_distinct[of "keys centers" "keys quotas"]
    by (simp add: sampler_input_def)
  then have "mset (map ?q (keys centers)) = mset (map ?q (keys quotas))"
    by simp
  then have "sum_list (map ?q (keys centers)) = sum_list (map ?q (keys quotas))"
    by (metis sum_mset_sum_list)
  moreover have "map ?q (keys quotas) = map snd quotas"
    using assms by (auto simp: sampler_input_def keys_def)
  moreover have "map ?q (keys centers) = map (\<lambda>(name, pool). ?q name) centers"
    by (simp add: keys_def case_prod_unfold comp_def)
  ultimately show ?thesis by simp
qed

lemma length_sample_sets:
  assumes inp: "sampler_input quotas centers"
    and ok: "choices_ok quotas centers rng"
    and s: "sample_sets quotas centers rng = Inr (center_set, label_set)"
  shows "length center_set = sum_list (map snd quotas)"
    and "length label_set = sum_list (map snd quotas)"
proof -
  have ns: "\<not> starved quotas centers"
  proof
    assume "starved quotas centers"
    then obtain name pool quota where "(name, pool) \<in> set centers" "pool = []"
      "map_of quotas name = Some quota" "0 < quota"
      unfolding starved_iff by blast
    from sample_sets_fails[OF inp this, of rng] s show False by simp
  qed
  note f = sample_sets_ok[OF inp ok ns, unfolded s, simplified]
  have l: "length (drawn quotas rng name pool) = the (map_of quotas name)"
    if "(name, pool) \<in> set centers" for name pool
  proof -
    from sampler_input_lookup(2)[OF inp that] obtain quota where q: "map_of quotas name = Some quota"
      by blast
    with ns that have "pool \<noteq> [] \<or> quota = 0" by (auto simp: starved_iff)
    from choices_ok_entry(1)[OF ok that q this] q show ?thesis by simp
  qed
  have "length center_set = (\<Sum>(name, pool)\<leftarrow>centers. length (drawn quotas rng name pool))"
    using f by (simp add: length_concat comp_def case_prod_unfold)
  also have "\<dots> = (\<Sum>(name, pool)\<leftarrow>centers. the (map_of quotas name))"
    by (rule arg_cong[where f = sum_list], rule map_cong) (use l in auto)
  finally show "length center_set = sum_list (map snd quotas)"
    by (simp add: sum_quotas[OF inp])
  have "length label_set = (\<Sum>(name, pool)\<leftarrow>centers. the (map_of quotas name))"
    using f by (simp add: length_concat comp_def case_prod_unfold)
  then show "length label_set = sum_list (map snd quotas)"
    by (simp add: sum_quotas[OF inp])
qed

lemma index_by_permutation:
  assumes "permutation_contract order [0..<length xs]"
  shows "index_by xs order = Inr (map (\<lambda>i. xs ! i) order)"
    and "mset (map (\<lambda>i. xs ! i) order) = mset xs"
    and "length order = length xs"
proof -
  from assms have m: "mset order = mset [0..<length xs]"
    by (simp add: permutation_contract_def)
  then have "set order = set [0..<length xs]"
    by (rule mset_eq_setD)
  then show "index_by xs order = Inr (map (\<lambda>i. xs ! i) order)"
    by (auto simp: index_by_def list_all_iff)
  have "mset (map (\<lambda>i. xs ! i) order) = mset (map (\<lambda>i. xs ! i) [0..<length xs])"
    using m by (metis mset_map)
  then show "mset (map (\<lambda>i. xs ! i) order) = mset xs"
    by (simp add: map_nth)
  from m show "length order = length xs"
    by (metis length_upt diff_zero size_mset)
qed

lemma zip_index_by:
  assumes "length xs = length ys" "set order \<subseteq> {..<length xs}"
  shows "zip (map (\<lambda>i. xs ! i) order) (map (\<lambda>i. ys ! i) order) = map (\<lambda>i. zip xs ys ! i) order"
  using assms by (induction order) auto

lemma shuffle_ok:
  assumes "length center_set = length label_set"
    and "permutation_contract (permutation_outcome rng [0..<length center_set]) [0..<length center_set]"
  shows "shuffle center_set label_set rng =
     Inr (map (\<lambda>i. center_set ! i) (permutation_outcome rng [0..<length center_set]),
          map (\<lambda>i. label_set ! i) (permutation_outcome rng [0..<length center_set]))"
  using index_by_permutation(1)[OF assms(2)]
    index_by_permutation(1)[of "permutation_outcome rng [0..<length center_set]" label_set] assms
  by (simp add: shuffle_def random_permutation_def Let_def)

lemma split_train_test_Inr:
  assumes "n_training test_split (length ordered_centers) = Inr n"
    and "length ordered_centers = length ordered_labels"
  shows "split_train_test ordered_centers ordered_labels test_split =
     Inr (take (slice_bound n (length ordered_centers)) ordered_centers,
          take (slice_bound n (length ordered_centers)) ordered_labels,
          drop (slice_bound n (length ordered_centers)) ordered_centers,
          drop (slice_bound n (length ordered_centers)) ordered_labels)"
  using assms by (simp add: split_train_test_def Let_def)

lemma split_train_test_Inl:
  assumes "n_training test_split (length ordered_centers) = Inl e"
  shows "split_train_test ordered_centers ordered_labels test_split = Inl e"
  using assms by (simp add: split_train_test_def)

lemma slice_bound_le: "slice_bound n k \<le> k"
  by (auto simp: slice_bound_def)

lemma zip_concat_map:
  assumes "\<And>x. x \<in> set xs \<Longrightarrow> length (f x) = length (g x)"
  shows "zip (concat (map f xs)) (concat (map g xs)) = concat (map (\<lambda>x. zip (f x) (g x)) xs)"
  using assms by (induction xs) simp_all

lemma zip_samples_labels:
  assumes inp: "sampler_input quotas centers"
    and ok: "choices_ok quotas centers rng"
    and ns: "\<not> starved quotas centers"
  shows "zip (concat (map (\<lambda>(name, pool). map (\<lambda>i. pool ! i) (drawn quotas rng name pool)) centers))
             (concat (map (\<lambda>(name, pool). replicate (the (map_of quotas name))
                                                  (the (map_of LABEL_ENUM name))) centers)) =
         map (\<lambda>(name, c). (c, the (map_of LABEL_ENUM name))) (tagged_samples quotas centers rng)"
proof -
  have l: "length (drawn quotas rng name pool) = the (map_of quotas name)"
    if e: "(name, pool) \<in> set centers" for name pool
  proof -
    from sampler_input_lookup(2)[OF inp e] obtain quota where q: "map_of quotas name = Some quota"
      by blast
    with ns e have "pool \<noteq> [] \<or> quota = 0"
      by (auto simp: starved_iff)
    from choices_ok_entry(1)[OF ok e q this] q show ?thesis by simp
  qed
  let ?f = "\<lambda>(name, pool). map (\<lambda>i. pool ! i) (drawn quotas rng name pool)"
  let ?g = "\<lambda>(name, pool). replicate (the (map_of quotas name)) (the (map_of LABEL_ENUM name))"
  have "zip (concat (map ?f centers)) (concat (map ?g centers)) =
        concat (map (\<lambda>x. zip (?f x) (?g x)) centers)"
    by (rule zip_concat_map) (use l in auto)
  also have "\<dots> = concat (map (\<lambda>(name, pool).
       map (\<lambda>i. (pool ! i, the (map_of LABEL_ENUM name))) (drawn quotas rng name pool)) centers)"
  proof (rule arg_cong[where f = concat], rule map_cong[OF refl])
    fix x assume x: "x \<in> set centers"
    obtain name pool where [simp]: "x = (name, pool)" by (cases x)
    from l[of name pool] x show "zip (?f x) (?g x) = (case x of (name, pool) \<Rightarrow>
       map (\<lambda>i. (pool ! i, the (map_of LABEL_ENUM name))) (drawn quotas rng name pool))"
      by (simp add: zip_replicate2 flip: l[of name pool])
  qed
  also have "\<dots> = map (\<lambda>(name, c). (c, the (map_of LABEL_ENUM name))) (tagged_samples quotas centers rng)"
    by (simp add: tagged_samples_def map_concat comp_def case_prod_unfold)
  finally show ?thesis .
qed

lemma sampler_run:
  assumes inp: "sampler_input quotas centers"
    and ok: "outcomes_ok quotas centers rng"
    and ns: "\<not> starved quotas centers"
  obtains center_set label_set where
    "sample_sets quotas centers rng = Inr (center_set, label_set)"
    "length center_set = sum_list (map snd quotas)"
    "length label_set = sum_list (map snd quotas)"
    "permutation_contract (permutation_outcome rng [0..<length center_set]) [0..<length center_set]"
    "shuffle center_set label_set rng =
       Inr (map (\<lambda>i. center_set ! i) (permutation_outcome rng [0..<length center_set]),
            map (\<lambda>i. label_set ! i) (permutation_outcome rng [0..<length center_set]))"
    "make_labelled_sets_with quotas centers test_split rng =
       split_train_test (map (\<lambda>i. center_set ! i) (permutation_outcome rng [0..<length center_set]))
         (map (\<lambda>i. label_set ! i) (permutation_outcome rng [0..<length center_set])) test_split"
    "zip center_set label_set =
       map (\<lambda>(name, c). (c, the (map_of LABEL_ENUM name))) (tagged_samples quotas centers rng)"
    "center_set =
       concat (map (\<lambda>(name, pool). map (\<lambda>i. pool ! i) (drawn quotas rng name pool)) centers)"
proof -
  from ok have ch: "choices_ok quotas centers rng" and pm: "permutation_ok quotas centers rng"
    by (simp_all add: outcomes_ok_def)
  let ?cs = "concat (map (\<lambda>(name, pool). map (\<lambda>i. pool ! i) (drawn quotas rng name pool)) centers)"
  let ?ls = "concat (map (\<lambda>(name, pool). replicate (the (map_of quotas name))
                                                  (the (map_of LABEL_ENUM name))) centers)"
  have s: "sample_sets quotas centers rng = Inr (?cs, ?ls)"
    by (rule sample_sets_ok[OF inp ch ns])
  note len = length_sample_sets[OF inp ch s]
  from pm have p: "permutation_contract (permutation_outcome rng [0..<length ?cs]) [0..<length ?cs]"
    by (simp add: permutation_ok_def s)
  from len have "length ?cs = length ?ls" by simp
  note sh = shuffle_ok[OF this p]
  have m: "make_labelled_sets_with quotas centers test_split rng =
       split_train_test (map (\<lambda>i. ?cs ! i) (permutation_outcome rng [0..<length ?cs]))
         (map (\<lambda>i. ?ls ! i) (permutation_outcome rng [0..<length ?cs])) test_split"
    by (simp add: make_labelled_sets_with_def s sh)
  show thesis
    by (rule that[OF s len p sh m zip_samples_labels[OF inp ch ns] refl])
qed

lemma sampler_split:
  assumes inp: "sampler_input quotas centers"
    and ok: "outcomes_ok quotas centers rng"
    and ns: "\<not> starved quotas centers"
    and nt: "n_training test_split (sum_list (map snd quotas)) = Inr n"
  obtains center_set label_set trc trl tec tel where
    "sample_sets quotas centers rng = Inr (center_set, label_set)"
    "length center_set = sum_list (map snd quotas)"
    "length label_set = sum_list (map snd quotas)"
    "permutation_contract (permutation_outcome rng [0..<length center_set]) [0..<length center_set]"
    "shuffle center_set label_set rng =
       Inr (map (\<lambda>i. center_set ! i) (permutation_outcome rng [0..<length center_set]),
            map (\<lambda>i. label_set ! i) (permutation_outcome rng [0..<length center_set]))"
    "make_labelled_sets_with quotas centers test_split rng = Inr (trc, trl, tec, tel)"
    "trc @ tec = map (\<lambda>i. center_set ! i) (permutation_outcome rng [0..<length center_set])"
    "trl @ tel = map (\<lambda>i. label_set ! i) (permutation_outcome rng [0..<length center_set])"
    "length trc = slice_bound n (sum_list (map snd quotas))"
    "length trl = slice_bound n (sum_list (map snd quotas))"
    "zip center_set label_set =
       map (\<lambda>(name, c). (c, the (map_of LABEL_ENUM name))) (tagged_samples quotas centers rng)"
    "center_set =
       concat (map (\<lambda>(name, pool). map (\<lambda>i. pool ! i) (drawn quotas rng name pool)) centers)"
proof -
  from inp ok ns obtain center_set label_set where r:
    "sample_sets quotas centers rng = Inr (center_set, label_set)"
    "length center_set = sum_list (map snd quotas)"
    "length label_set = sum_list (map snd quotas)"
    "permutation_contract (permutation_outcome rng [0..<length center_set]) [0..<length center_set]"
    "shuffle center_set label_set rng =
       Inr (map (\<lambda>i. center_set ! i) (permutation_outcome rng [0..<length center_set]),
            map (\<lambda>i. label_set ! i) (permutation_outcome rng [0..<length center_set]))"
    "make_labelled_sets_with quotas centers test_split rng =
       split_train_test (map (\<lambda>i. center_set ! i) (permutation_outcome rng [0..<length center_set]))
         (map (\<lambda>i. label_set ! i) (permutation_outcome rng [0..<length center_set])) test_split"
    "zip center_set label_set =
       map (\<lambda>(name, c). (c, the (map_of LABEL_ENUM name))) (tagged_samples quotas centers rng)"
    "center_set =
       concat (map (\<lambda>(name, pool). map (\<lambda>i. pool ! i) (drawn quotas rng name pool)) centers)"
    by (rule sampler_run)
  let ?n = "sum_list (map snd quotas)"
  let ?order = "permutation_outcome rng [0..<length center_set]"
  let ?oc = "map (\<lambda>i. center_set ! i) ?order"
  let ?ol = "map (\<lambda>i. label_set ! i) ?order"
  let ?k = "slice_bound n (length ?oc)"
  have lo: "length ?oc = ?n" "length ?oc = length ?ol"
    using index_by_permutation(3)[OF r(4)] r(2) by simp_all
  from nt lo(1) have nt': "n_training test_split (length ?oc) = Inr n"
    by simp
  from r(6) split_train_test_Inr[OF nt' lo(2)]
  have m: "make_labelled_sets_with quotas centers test_split rng =
      Inr (take ?k ?oc, take ?k ?ol, drop ?k ?oc, drop ?k ?ol)"
    by simp
  have k: "?k = slice_bound n ?n" "?k \<le> length ?oc" "?k \<le> length ?ol"
    using lo slice_bound_le[of n "length ?oc"] by simp_all
  have l1: "length (take ?k ?oc) = slice_bound n ?n"
    using k(1,2) by (simp only: length_take min_absorb2)
  have l2: "length (take ?k ?ol) = slice_bound n ?n"
    using k(1,3) by (simp only: length_take min_absorb2)
  show thesis
    by (rule that[OF r(1-5) m append_take_drop_id append_take_drop_id l1 l2 r(7,8)])
qed

lemma sampler_split_fails:
  assumes inp: "sampler_input quotas centers"
    and ok: "outcomes_ok quotas centers rng"
    and ns: "\<not> starved quotas centers"
    and nt: "n_training test_split (sum_list (map snd quotas)) = Inl e"
  shows "make_labelled_sets_with quotas centers test_split rng = Inl e"
proof -
  from inp ok ns obtain center_set label_set where r:
    "length center_set = sum_list (map snd quotas)"
    "permutation_contract (permutation_outcome rng [0..<length center_set]) [0..<length center_set]"
    "make_labelled_sets_with quotas centers test_split rng =
       split_train_test (map (\<lambda>i. center_set ! i) (permutation_outcome rng [0..<length center_set]))
         (map (\<lambda>i. label_set ! i) (permutation_outcome rng [0..<length center_set])) test_split"
    by (rule sampler_run)
  let ?oc = "map (\<lambda>i. center_set ! i) (permutation_outcome rng [0..<length center_set])"
  have "length ?oc = sum_list (map snd quotas)"
    using index_by_permutation(3)[OF r(2)] r(1) by simp
  with nt have "n_training test_split (length ?oc) = Inl e"
    by simp
  from split_train_test_Inl[OF this] r(3) show ?thesis
    by simp
qed

lemma sampler_fails:
  assumes inp: "sampler_input quotas centers"
    and st: "starved quotas centers"
  shows "make_labelled_sets_with quotas centers test_split rng = Inl ValueError"
proof -
  from st obtain name pool quota where "(name, pool) \<in> set centers" "pool = []"
    "map_of quotas name = Some quota" "0 < quota"
    unfolding starved_iff by blast
  from sample_sets_fails[OF inp this] show ?thesis
    by (simp add: make_labelled_sets_with_def)
qed

lemma test_size_run:
  assumes "sampler_input quotas centers" "outcomes_ok quotas centers rng"
    "\<not> starved quotas centers"
    "n_training test_split (sum_list (map snd quotas)) = Inr n"
  shows "test_size (make_labelled_sets_with quotas centers test_split rng) =
     Some (sum_list (map snd quotas) - slice_bound n (sum_list (map snd quotas)))"
proof -
  from assms obtain center_set label_set trc trl tec tel where r:
    "length center_set = sum_list (map snd quotas)"
    "permutation_contract (permutation_outcome rng [0..<length center_set]) [0..<length center_set]"
    "make_labelled_sets_with quotas centers test_split rng = Inr (trc, trl, tec, tel)"
    "trc @ tec = map (\<lambda>i. center_set ! i) (permutation_outcome rng [0..<length center_set])"
    "length trc = slice_bound n (sum_list (map snd quotas))"
    by (rule sampler_split)
  from arg_cong[OF r(4), of length] index_by_permutation(3)[OF r(2)] r(1)
  have "length trc + length tec = sum_list (map snd quotas)" by simp
  with r(5) have "length tec = sum_list (map snd quotas) - slice_bound n (sum_list (map snd quotas))"
    by simp
  then show ?thesis
    by (simp add: test_size_def r(3))
qed

lemma list_all2_map_self:
  assumes "\<And>x. x \<in> set xs \<Longrightarrow> P x (h x)"
  shows "list_all2 P xs (map h xs)"
  using assms by (simp add: list_all2_map2 list_all2_same)

lemma tagged_entry:
  assumes "(name, c) \<in> set (tagged_samples quotas centers rng)"
  shows "\<exists>pool. (name, pool) \<in> set centers"
  using assms by (auto simp: tagged_samples_def)

lemma rng_contract_outcomes:
  assumes "rng_contract rng"
  shows "outcomes_ok quotas centers rng"
proof -
  have "choices_ok quotas centers rng"
    unfolding choices_ok_def list_all_iff
  proof (intro ballI)
    fix x assume "x \<in> set centers"
    obtain name pool where x: "x = (name, pool)" by (cases x)
    have "(pool = [] \<and> quota \<noteq> 0) \<or>
        choice_contract (choice_outcome rng name [0..<length pool] quota) [0..<length pool] quota"
      for quota
      using assms by (cases "pool = [] \<and> quota \<noteq> 0") (auto simp: rng_contract_def)
    then show "case x of (name, pool) \<Rightarrow>
        (case map_of quotas name of None \<Rightarrow> True
         | Some quota \<Rightarrow> (pool = [] \<and> quota \<noteq> 0) \<or>
             choice_contract (choice_outcome rng name [0..<length pool] quota)
               [0..<length pool] quota)"
      by (simp add: x split: option.split)
  qed
  moreover have "permutation_ok quotas centers rng"
    using assms by (simp add: permutation_ok_def rng_contract_def split: sum.split)
  ultimately show ?thesis
    by (simp add: outcomes_ok_def)
qed

lemma counts_total: "sum_list (map snd counts) = 800000"
  by (simp add: counts_def)

lemma rng_unit_contract: "rng_contract rng_unit"
  by (auto simp: rng_contract_def rng_unit_def choice_contract_def permutation_contract_def)

lemma rng_small_contract: "rng_contract rng_small"
  by (auto simp: rng_contract_def rng_small_def choice_contract_def permutation_contract_def)

lemma unit_input:
  "sampler_input counts centers_unit" "\<not> starved counts centers_unit"
  by (simp_all add: sampler_input_def starved_def keys_def counts_def centers_unit_def
      LABEL_ENUM_def)

lemma starved_input:
  "sampler_input counts centers_starved" "starved counts centers_starved"
  by (simp_all add: sampler_input_def starved_def keys_def counts_def centers_starved_def
      LABEL_ENUM_def)

lemma small_input:
  "sampler_input quotas_small centers_small" "\<not> starved quotas_small centers_small"
  by (simp_all add: sampler_input_def starved_def keys_def quotas_small_def centers_small_def
      LABEL_ENUM_def)

lemma float_of_total: "float_of_nat (sum_list (map snd counts)) = Inr (Finite 800000 0)"
proof -
  have "round_double 800000 0 = Finite 800000 0" by code_simp
  then show ?thesis by (simp add: float_of_nat_def counts_total)
qed

lemma default_split_index: "n_training double_0_1 (sum_list (map snd counts)) = Inr 720000"
proof -
  have "py_int (fmul (fsub (Finite 1 0) double_0_1) (Finite 800000 0)) = Inr 720000"
    by code_simp
  then show ?thesis
    unfolding n_training_def float_of_one float_of_total and_then_def by simp
qed

lemma nine_tenths_split_index: "n_training double_0_9 (sum_list (map snd counts)) = Inr 79999"
proof -
  have "py_int (fmul (fsub (Finite 1 0) double_0_9) (Finite 800000 0)) = Inr 79999"
    by code_simp
  then show ?thesis
    unfolding n_training_def float_of_one float_of_total and_then_def by simp
qed

lemma float_of_small_total: "float_of_nat (sum_list (map snd quotas_small)) = Inr (Finite 7 0)"
proof -
  have "round_double 7 0 = Finite 7 0" by code_simp
  then show ?thesis by (simp add: float_of_nat_def quotas_small_def)
qed

lemma small_split_index: "n_training double_0_1 (sum_list (map snd quotas_small)) = Inr 6"
proof -
  have "py_int (fmul (fsub (Finite 1 0) double_0_1) (Finite 7 0)) = Inr 6"
    by code_simp
  then show ?thesis
    unfolding n_training_def float_of_one float_of_small_total and_then_def by simp
qed

lemma nan_small_split_index: "n_training NaN (sum_list (map snd quotas_small)) = Inl ValueError"
  unfolding n_training_def float_of_one float_of_small_total and_then_def by simp

lemma nan_default_split_index: "n_training NaN (sum_list (map snd counts)) = Inl ValueError"
  unfolding n_training_def float_of_one float_of_total and_then_def by simp

lemma small_sample:
  "sample_sets quotas_small centers_small rng_small =
     Inr ([(6, 5, 1), (5, 5, 0), (20, 21, 0), (20, 22, 0), (20, 23, 0), (20, 24, 0), (20, 25, 0)],
      [1, 1, 0, 1, 0, 0, 0])"
  by code_simp

lemma small_shuffle:
  "shuffle [(6, 5, 1), (5, 5, 0), (20, 21, 0), (20, 22, 0), (20, 23, 0), (20, 24, 0), (20, 25, 0)]
       [1, 1, 0, 1, 0, 0, 0] rng_small =
     Inr ([(20, 25, 0), (20, 24, 0), (20, 23, 0), (20, 22, 0), (20, 21, 0), (5, 5, 0), (6, 5, 1)],
          [0, 0, 0, 1, 0, 1, 1])"
  by code_simp

lemma small_run:
  "make_labelled_sets_with quotas_small centers_small double_0_1 rng_small =
     Inr ([(20, 25, 0), (20, 24, 0), (20, 23, 0), (20, 22, 0), (20, 21, 0), (5, 5, 0)],
          [0, 0, 0, 1, 0, 1], [(6, 5, 1)], [1])"
proof -
  have "split_train_test
      [(20, 25, 0), (20, 24, 0), (20, 23, 0), (20, 22, 0), (20, 21, 0), (5, 5, 0), (6, 5, 1)]
      [0, 0, 0, 1, 0, 1, 1] double_0_1 =
     Inr ([(20, 25, 0), (20, 24, 0), (20, 23, 0), (20, 22, 0), (20, 21, 0), (5, 5, 0)],
          [0, 0, 0, 1, 0, 1], [(6, 5, 1)], [1])"
  proof -
    let ?oc = "[(20, 25, 0), (20, 24, 0), (20, 23, 0), (20, 22, 0), (20, 21, 0), (5, 5, 0),
      (6, 5, 1)] :: coords"
    let ?ol = "[0, 0, 0, 1, 0, 1, 1] :: int list"
    have l: "length ?oc = 7" "length ?oc = length ?ol" by simp_all
    have "n_training double_0_1 (length ?oc) = Inr 6"
      unfolding l(1) using small_split_index by (simp add: quotas_small_def)
    from split_train_test_Inr[OF this l(2)] show ?thesis
      by (simp add: slice_bound_def)
  qed
  then show ?thesis
    by (simp add: make_labelled_sets_with_def small_sample small_shuffle)
qed

text \<open>
  Claim C3, as the code has it: a run without a starved category returns when the split
  index \<open>n_training = int((1 - s) * sum(q_i))\<close> is computed, and fails with the error of
  that computation otherwise. A run that returns splits the one shuffled pool into a
  prefix (training) and the remaining suffix (test), of \<open>sum(q_i)\<close> samples together, at
  \<open>n_training\<close> as double-precision arithmetic evaluates it, read as a Python slice
  bound. For a test split that is a fraction and fewer than \<open>2 ^ 53\<close> samples the index
  is computed and lies between 0 and \<open>sum(q_i)\<close>, so that the training set has
  \<open>n_training\<close> samples and the test set the other \<open>sum(q_i) - n_training\<close>.
\<close>

theorem train_test_split_sizes:
  assumes "sampler_input quotas centers" "outcomes_ok quotas centers rng"
    "\<not> starved quotas centers"
  shows "(case n_training test_split (sum_list (map snd quotas)) of
       Inl e \<Rightarrow> make_labelled_sets_with quotas centers test_split rng = Inl e
     | Inr n \<Rightarrow>
         (\<exists>trc trl tec tel center_set label_set ordered_centers ordered_labels.
            make_labelled_sets_with quotas centers test_split rng = Inr (trc, trl, tec, tel) \<and>
            sample_sets quotas centers rng = Inr (center_set, label_set) \<and>
            shuffle center_set label_set rng = Inr (ordered_centers, ordered_labels) \<and>
            trc @ tec = ordered_centers \<and> trl @ tel = ordered_labels \<and>
            length trl = length trc \<and> length tel = length tec \<and>
            length trc + length tec = sum_list (map snd quotas) \<and>
            length trc = slice_bound n (sum_list (map snd quotas)))) \<and>
     (is_fraction test_split \<and> sum_list (map snd quotas) < 2 ^ 53 \<longrightarrow>
        (\<exists>n trc trl tec tel.
           n_training test_split (sum_list (map snd quotas)) = Inr n \<and>
           0 \<le> n \<and> n \<le> int (sum_list (map snd quotas)) \<and>
           make_labelled_sets_with quotas centers test_split rng = Inr (trc, trl, tec, tel) \<and>
           int (length trc) = n \<and> int (length tec) = int (sum_list (map snd quotas)) - n))"
proof -
  let ?n = "sum_list (map snd quotas)"
  have run: "\<exists>trc trl tec tel center_set label_set ordered_centers ordered_labels.
            make_labelled_sets_with quotas centers test_split rng = Inr (trc, trl, tec, tel) \<and>
            sample_sets quotas centers rng = Inr (center_set, label_set) \<and>
            shuffle center_set label_set rng = Inr (ordered_centers, ordered_labels) \<and>
            trc @ tec = ordered_centers \<and> trl @ tel = ordered_labels \<and>
            length trl = length trc \<and> length tel = length tec \<and>
            length trc + length tec = ?n \<and> length trc = slice_bound n ?n"
    if nt: "n_training test_split ?n = Inr n" for n
  proof -
    from assms nt obtain center_set label_set trc trl tec tel where r:
      "sample_sets quotas centers rng = Inr (center_set, label_set)"
      "length center_set = sum_list (map snd quotas)"
      "length label_set = sum_list (map snd quotas)"
      "permutation_contract (permutation_outcome rng [0..<length center_set]) [0..<length center_set]"
      "shuffle center_set label_set rng =
         Inr (map (\<lambda>i. center_set ! i) (permutation_outcome rng [0..<length center_set]),
              map (\<lambda>i. label_set ! i) (permutation_outcome rng [0..<length center_set]))"
      "make_labelled_sets_with quotas centers test_split rng = Inr (trc, trl, tec, tel)"
      "trc @ tec = map (\<lambda>i. center_set ! i) (permutation_outcome rng [0..<length center_set])"
      "trl @ tel = map (\<lambda>i. label_set ! i) (permutation_outcome rng [0..<length center_set])"
      "length trc = slice_bound n (sum_list (map snd quotas))"
      "length trl = slice_bound n (sum_list (map snd quotas))"
      by (rule sampler_split)
    let ?order = "permutation_outcome rng [0..<length center_set]"
    note lo = index_by_permutation(3)[OF r(4)]
    from arg_cong[OF r(7), of length] lo r(2) have tot: "length trc + length tec = ?n"
      by simp
    from arg_cong[OF r(8), of length] lo r(2) have totl: "length trl + length tel = ?n"
      by simp
    from r(9,10) have eq1: "length trl = length trc" by simp
    with tot totl have eq2: "length tel = length tec" by simp
    show ?thesis
      apply (rule exI[of _ trc], rule exI[of _ trl], rule exI[of _ tec], rule exI[of _ tel])
      apply (rule exI[of _ center_set], rule exI[of _ label_set])
      apply (rule exI[of _ "map (\<lambda>i. center_set ! i) ?order"])
      apply (rule exI[of _ "map (\<lambda>i. label_set ! i) ?order"])
      using r(1,5,6,7,8,9) eq1 eq2 tot by simp
  qed
  have 1: "case n_training test_split ?n of
       Inl e \<Rightarrow> make_labelled_sets_with quotas centers test_split rng = Inl e
     | Inr n \<Rightarrow>
         (\<exists>trc trl tec tel center_set label_set ordered_centers ordered_labels.
            make_labelled_sets_with quotas centers test_split rng = Inr (trc, trl, tec, tel) \<and>
            sample_sets quotas centers rng = Inr (center_set, label_set) \<and>
            shuffle center_set label_set rng = Inr (ordered_centers, ordered_labels) \<and>
            trc @ tec = ordered_centers \<and> trl @ tel = ordered_labels \<and>
            length trl = length trc \<and> length tel = length tec \<and>
            length trc + length tec = ?n \<and> length trc = slice_bound n ?n)"
  proof (cases "n_training test_split ?n")
    case (Inl e)
    from sampler_split_fails[OF assms this] show ?thesis
      unfolding Inl by simp
  next
    case (Inr n)
    from run[OF this] show ?thesis
      unfolding Inr by simp
  qed
  have 2: "\<exists>n trc trl tec tel.
           n_training test_split ?n = Inr n \<and> 0 \<le> n \<and> n \<le> int ?n \<and>
           make_labelled_sets_with quotas centers test_split rng = Inr (trc, trl, tec, tel) \<and>
           int (length trc) = n \<and> int (length tec) = int ?n - n"
    if f: "is_fraction test_split \<and> ?n < 2 ^ 53"
  proof -
    from f fraction_split_index[of test_split ?n] obtain n where
      n: "n_training test_split ?n = Inr n" "0 \<le> n" "n \<le> int ?n"
      by blast
    from run[OF n(1)] obtain trc trl tec tel where r:
      "make_labelled_sets_with quotas centers test_split rng = Inr (trc, trl, tec, tel)"
      "length trc + length tec = ?n" "length trc = slice_bound n ?n"
      by blast
    from n(2,3) have "slice_bound n ?n = nat n"
      by (simp add: slice_bound_def)
    with r(3) n(2) have l: "int (length trc) = n" by simp
    with r(2) have "int (length tec) = int ?n - n" by linarith
    with n r(1) l show ?thesis by blast
  qed
  from 1 2 show ?thesis by blast
qed

theorem train_test_split_sizes_witness:
  "sampler_input counts centers_unit \<and> outcomes_ok counts centers_unit rng_unit \<and>
   \<not> starved counts centers_unit \<and>
   n_training double_0_1 (sum_list (map snd counts)) = Inr 720000 \<and>
   is_fraction double_0_1 \<and> sum_list (map snd counts) < 2 ^ 53 \<and>
   (\<exists>trc trl tec tel.
      make_labelled_sets centers_unit double_0_1 rng_unit = Inr (trc, trl, tec, tel) \<and>
      length trc = 720000 \<and> length tec = 80000 \<and> length trl = 720000 \<and> length tel = 80000 \<and>
      length trc + length tec = sum_list (map snd counts)) \<and>
   (\<exists>n trc trl tec tel.
      n_training double_0_1 (sum_list (map snd counts)) = Inr n \<and>
      0 \<le> n \<and> n \<le> int (sum_list (map snd counts)) \<and>
      make_labelled_sets centers_unit double_0_1 rng_unit = Inr (trc, trl, tec, tel) \<and>
      int (length trc) = n \<and> int (length tec) = int (sum_list (map snd counts)) - n) \<and>
   n_training NaN (sum_list (map snd counts)) = Inl ValueError \<and>
   make_labelled_sets centers_unit NaN rng_unit = Inl ValueError"
proof -
  note ok = rng_contract_outcomes[OF rng_unit_contract, of counts centers_unit]
  note t = train_test_split_sizes[OF unit_input(1) ok unit_input(2)]
  have f: "is_fraction double_0_1" "sum_list (map snd counts) < 2 ^ 53"
    by (simp_all add: double_0_1_def dyadic_def counts_total)
  from t[of double_0_1] obtain trc trl tec tel where r:
    "make_labelled_sets_with counts centers_unit double_0_1 rng_unit = Inr (trc, trl, tec, tel)"
    "length trl = length trc" "length tel = length tec"
    "length trc + length tec = sum_list (map snd counts)"
    "length trc = slice_bound 720000 (sum_list (map snd counts))"
    unfolding default_split_index by auto
  from r(5) have a: "length trc = 720000"
    by (simp add: counts_total slice_bound_def)
  with r(4) have b: "length tec = 80000"
    by (simp add: counts_total)
  from r(1-4) a b have 1: "\<exists>trc trl tec tel.
      make_labelled_sets centers_unit double_0_1 rng_unit = Inr (trc, trl, tec, tel) \<and>
      length trc = 720000 \<and> length tec = 80000 \<and> length trl = 720000 \<and> length tel = 80000 \<and>
      length trc + length tec = sum_list (map snd counts)"
    by (simp add: make_labelled_sets_def)
  from t[of double_0_1] f have 2: "\<exists>n trc trl tec tel.
      n_training double_0_1 (sum_list (map snd counts)) = Inr n \<and>
      0 \<le> n \<and> n \<le> int (sum_list (map snd counts)) \<and>
      make_labelled_sets centers_unit double_0_1 rng_unit = Inr (trc, trl, tec, tel) \<and>
      int (length trc) = n \<and> int (length tec) = int (sum_list (map snd counts)) - n"
    unfolding make_labelled_sets_def by blast
  from t[of NaN] have 3: "make_labelled_sets centers_unit NaN rng_unit = Inl ValueError"
    unfolding nan_default_split_index make_labelled_sets_def by simp
  from unit_input ok default_split_index f 1 2 nan_default_split_index 3 show ?thesis
    by blast
qed

text \<open>
  Claim C3 as stated fails: with the quotas of the source and the double nearest to 0.9
  as the test split, the product \<open>(1 - 0.9) * 800000\<close> is rounded to a double below
  80000, the training set has 79999 samples and the test set 720001, while
  \<open>floor(s * sum(q_i))\<close> is 720000, for the exact value of the double and in double
  precision alike.
\<close>

theorem test_size_is_not_floor:
  "test_size (make_labelled_sets centers_unit double_0_9 rng_unit) = Some 720001 \<and>
   double_0_9 = Finite 8106479329266893 (- 53) \<and>
   \<lfloor>dyadic 8106479329266893 (- 53) * real (sum_list (map snd counts))\<rfloor> = 720000 \<and>
   and_then (float_of_nat (sum_list (map snd counts)))
     (\<lambda>columns. py_int (fmul double_0_9 columns)) = Inr 720000"
proof -
  note ok = rng_contract_outcomes[OF rng_unit_contract, of counts centers_unit]
  have "test_size (make_labelled_sets_with counts centers_unit double_0_9 rng_unit) =
     Some (sum_list (map snd counts) - slice_bound 79999 (sum_list (map snd counts)))"
    by (rule test_size_run[OF unit_input(1) ok unit_input(2) nine_tenths_split_index])
  then have 1: "test_size (make_labelled_sets centers_unit double_0_9 rng_unit) = Some 720001"
    by (simp add: make_labelled_sets_def counts_total slice_bound_def)
  have 2: "\<lfloor>dyadic 8106479329266893 (- 53) * real (sum_list (map snd counts))\<rfloor> = 720000"
    by (simp add: dyadic_def counts_total)
  have "py_int (fmul double_0_9 (Finite 800000 0)) = Inr 720000"
    by code_simp
  then have 3: "and_then (float_of_nat (sum_list (map snd counts)))
     (\<lambda>columns. py_int (fmul double_0_9 columns)) = Inr 720000"
    unfolding float_of_total and_then_def by simp
  from 1 2 3 show ?thesis
    by (simp add: double_0_9_def)
qed

text \<open>
  Claim C4: \<open>make_labelled_sets\<close> applies the one permutation to the coordinates and to
  the labels: in a run that returns, the training set followed by the test set is the
  shuffled pool, in which the pair at every index is the pair at the permuted index
  before the shuffle; the permutation rearranges the indices, and the multiset of pairs
  is unchanged. A run without a starved category returns unless the computation of the
  split index fails.
\<close>

theorem shuffle_keeps_pairs:
  assumes "sampler_input quotas centers" "outcomes_ok quotas centers rng"
    "\<not> starved quotas centers"
  shows "\<exists>center_set label_set.
     sample_sets quotas centers rng = Inr (center_set, label_set) \<and>
     length center_set = length label_set \<and>
     mset (permutation_outcome rng [0..<length center_set]) = mset [0..<length center_set] \<and>
     (case n_training test_split (sum_list (map snd quotas)) of
        Inl e \<Rightarrow> make_labelled_sets_with quotas centers test_split rng = Inl e
      | Inr n \<Rightarrow>
          (\<exists>trc trl tec tel ordered_centers ordered_labels.
             make_labelled_sets_with quotas centers test_split rng = Inr (trc, trl, tec, tel) \<and>
             trc @ tec = ordered_centers \<and> trl @ tel = ordered_labels \<and>
             shuffle center_set label_set rng = Inr (ordered_centers, ordered_labels) \<and>
             length (trc @ tec) = length center_set \<and> length (trl @ tel) = length label_set \<and>
             (\<forall>i < length center_set.
                (trc @ tec) ! i =
                  center_set ! (permutation_outcome rng [0..<length center_set] ! i) \<and>
                (trl @ tel) ! i =
                  label_set ! (permutation_outcome rng [0..<length center_set] ! i)) \<and>
             mset (zip (trc @ tec) (trl @ tel)) = mset (zip center_set label_set)))"
proof -
  from assms obtain center_set label_set where r:
    "sample_sets quotas centers rng = Inr (center_set, label_set)"
    "length center_set = sum_list (map snd quotas)"
    "length label_set = sum_list (map snd quotas)"
    "permutation_contract (permutation_outcome rng [0..<length center_set]) [0..<length center_set]"
    "shuffle center_set label_set rng =
       Inr (map (\<lambda>i. center_set ! i) (permutation_outcome rng [0..<length center_set]),
            map (\<lambda>i. label_set ! i) (permutation_outcome rng [0..<length center_set]))"
    by (rule sampler_run)
  let ?order = "permutation_outcome rng [0..<length center_set]"
  let ?oc = "map (\<lambda>i. center_set ! i) ?order"
  let ?ol = "map (\<lambda>i. label_set ! i) ?order"
  from r(2,3) have eq: "length center_set = length label_set" by simp
  note lo = index_by_permutation(3)[OF r(4)]
  from r(4) have m: "mset ?order = mset [0..<length center_set]"
    by (simp add: permutation_contract_def)
  then have "set ?order = set [0..<length center_set]"
    by (rule mset_eq_setD)
  then have sub: "set ?order \<subseteq> {..<length center_set}" by auto
  have "zip ?oc ?ol = map (\<lambda>i. zip center_set label_set ! i) ?order"
    by (rule zip_index_by[OF eq sub])
  moreover have "permutation_contract ?order [0..<length (zip center_set label_set)]"
    using r(4) eq by simp
  ultimately have z: "mset (zip ?oc ?ol) = mset (zip center_set label_set)"
    using index_by_permutation(2) by metis
  have nth: "\<forall>i < length center_set.
        ?oc ! i = center_set ! (?order ! i) \<and> ?ol ! i = label_set ! (?order ! i)"
    using lo by simp
  have "case n_training test_split (sum_list (map snd quotas)) of
        Inl e \<Rightarrow> make_labelled_sets_with quotas centers test_split rng = Inl e
      | Inr n \<Rightarrow>
          (\<exists>trc trl tec tel ordered_centers ordered_labels.
             make_labelled_sets_with quotas centers test_split rng = Inr (trc, trl, tec, tel) \<and>
             trc @ tec = ordered_centers \<and> trl @ tel = ordered_labels \<and>
             shuffle center_set label_set rng = Inr (ordered_centers, ordered_labels) \<and>
             length (trc @ tec) = length center_set \<and> length (trl @ tel) = length label_set \<and>
             (\<forall>i < length center_set.
                (trc @ tec) ! i = center_set ! (?order ! i) \<and>
                (trl @ tel) ! i = label_set ! (?order ! i)) \<and>
             mset (zip (trc @ tec) (trl @ tel)) = mset (zip center_set label_set))"
  proof (cases "n_training test_split (sum_list (map snd quotas))")
    case (Inl e)
    from sampler_split_fails[OF assms this] show ?thesis
      unfolding Inl by simp
  next
    case (Inr n)
    from assms Inr obtain cs ls trc trl tec tel where s:
      "sample_sets quotas centers rng = Inr (cs, ls)"
      "make_labelled_sets_with quotas centers test_split rng = Inr (trc, trl, tec, tel)"
      "trc @ tec = map (\<lambda>i. cs ! i) (permutation_outcome rng [0..<length cs])"
      "trl @ tel = map (\<lambda>i. ls ! i) (permutation_outcome rng [0..<length cs])"
      by (rule sampler_split)
    from s(1) r(1) have c: "cs = center_set" "ls = label_set" by simp_all
    from s(3,4) have t: "trc @ tec = ?oc" "trl @ tel = ?ol"
      unfolding c by simp_all
    have "\<exists>trc trl tec tel ordered_centers ordered_labels.
             make_labelled_sets_with quotas centers test_split rng = Inr (trc, trl, tec, tel) \<and>
             trc @ tec = ordered_centers \<and> trl @ tel = ordered_labels \<and>
             shuffle center_set label_set rng = Inr (ordered_centers, ordered_labels) \<and>
             length (trc @ tec) = length center_set \<and> length (trl @ tel) = length label_set \<and>
             (\<forall>i < length center_set.
                (trc @ tec) ! i = center_set ! (?order ! i) \<and>
                (trl @ tel) ! i = label_set ! (?order ! i)) \<and>
             mset (zip (trc @ tec) (trl @ tel)) = mset (zip center_set label_set)"
      apply (rule exI[of _ trc], rule exI[of _ trl], rule exI[of _ tec], rule exI[of _ tel])
      apply (rule exI[of _ ?oc], rule exI[of _ ?ol])
      unfolding t
      using r(5) s(2) eq lo z nth by simp
    then show ?thesis
      unfolding Inr by simp
  qed
  with r(1) eq m show ?thesis
    by blast
qed

theorem shuffle_keeps_pairs_witness:
  "sampler_input quotas_small centers_small \<and> outcomes_ok quotas_small centers_small rng_small \<and>
   \<not> starved quotas_small centers_small \<and>
   n_training double_0_1 (sum_list (map snd quotas_small)) = Inr 6 \<and>
   make_labelled_sets_with quotas_small centers_small double_0_1 rng_small =
     Inr ([(20, 25, 0), (20, 24, 0), (20, 23, 0), (20, 22, 0), (20, 21, 0), (5, 5, 0)],
          [0, 0, 0, 1, 0, 1], [(6, 5, 1)], [1]) \<and>
   sample_sets quotas_small centers_small rng_small =
     Inr ([(6, 5, 1), (5, 5, 0), (20, 21, 0), (20, 22, 0), (20, 23, 0), (20, 24, 0), (20, 25, 0)],
          [1, 1, 0, 1, 0, 0, 0]) \<and>
   mset (zip ([(20, 25, 0), (20, 24, 0), (20, 23, 0), (20, 22, 0), (20, 21, 0), (5, 5, 0)]
                @ [(6, 5, 1)])
             ([0, 0, 0, 1, 0, 1] @ [1 :: int])) =
   mset (zip [(6, 5, 1), (5, 5, 0), (20, 21, 0), (20, 22, 0), (20, 23, 0), (20, 24, 0), (20, 25, 0)]
             [1, 1, 0, 1, 0, 0, 0 :: int] :: (column \<times> int) list) \<and>
   n_training NaN (sum_list (map snd quotas_small)) = Inl ValueError \<and>
   make_labelled_sets_with quotas_small centers_small NaN rng_small = Inl ValueError"
proof -
  note ok = rng_contract_outcomes[OF rng_small_contract, of quotas_small centers_small]
  note t = shuffle_keeps_pairs[OF small_input(1) ok small_input(2)]
  from t[of double_0_1]
  obtain trc trl tec tel center_set label_set where r:
    "make_labelled_sets_with quotas_small centers_small double_0_1 rng_small =
       Inr (trc, trl, tec, tel)"
    "sample_sets quotas_small centers_small rng_small = Inr (center_set, label_set)"
    "mset (zip (trc @ tec) (trl @ tel)) = mset (zip center_set label_set)"
    unfolding small_split_index by auto
  from r(1) have "Inr (trc, trl, tec, tel) =
      (Inr ([(20, 25, 0), (20, 24, 0), (20, 23, 0), (20, 22, 0), (20, 21, 0), (5, 5, 0)],
          [0, 0, 0, 1, 0, 1], [(6, 5, 1)], [1]) :: error + coords \<times> int list \<times> coords \<times> int list)"
    unfolding small_run by (rule sym)
  then have t1:
    "trc = [(20, 25, 0), (20, 24, 0), (20, 23, 0), (20, 22, 0), (20, 21, 0), (5, 5, 0)]"
    "trl = [0, 0, 0, 1, 0, 1]" "tec = [(6, 5, 1)]" "tel = [1]"
    by blast+
  from r(2) have "Inr (center_set, label_set) =
      (Inr ([(6, 5, 1), (5, 5, 0), (20, 21, 0), (20, 22, 0), (20, 23, 0), (20, 24, 0), (20, 25, 0)],
          [1, 1, 0, 1, 0, 0, 0]) :: error + coords \<times> int list)"
    unfolding small_sample by (rule sym)
  then have c:
    "center_set = [(6, 5, 1), (5, 5, 0), (20, 21, 0), (20, 22, 0), (20, 23, 0), (20, 24, 0), (20, 25, 0)]"
    "label_set = [1, 1, 0, 1, 0, 0, 0]"
    by blast+
  from r(3) have 1: "mset (zip ([(20, 25, 0), (20, 24, 0), (20, 23, 0), (20, 22, 0), (20, 21, 0), (5, 5, 0)]
                @ [(6, 5, 1)])
             ([0, 0, 0, 1, 0, 1] @ [1 :: int])) =
   mset (zip [(6, 5, 1), (5, 5, 0), (20, 21, 0), (20, 22, 0), (20, 23, 0), (20, 24, 0), (20, 25, 0)]
             [1, 1, 0, 1, 0, 0, 0 :: int] :: (column \<times> int) list)"
    unfolding t1 c .
  from t[of NaN] have 2:
    "make_labelled_sets_with quotas_small centers_small NaN rng_small = Inl ValueError"
    unfolding nan_small_split_index by auto
  from small_input ok small_split_index small_run small_sample 1 nan_small_split_index 2
  show ?thesis
    by blast
qed

text \<open>
  Claim C5: before the shuffle the sample at every position carries the label that
  \<open>LABEL_ENUM\<close> gives the category it was drawn for, and that label is 0 or 1; the
  returned sets, training then test, are such labelled samples too, for a rearrangement
  of the drawn samples. \<open>LABEL_ENUM\<close> maps the six categories to 1, 0, 1, 0, 0, 0. A run
  without a starved category returns unless the computation of the split index fails.
\<close>

theorem labels_follow_categories:
  assumes "sampler_input quotas centers" "outcomes_ok quotas centers rng"
    "\<not> starved quotas centers"
  shows "\<exists>center_set label_set.
     sample_sets quotas centers rng = Inr (center_set, label_set) \<and>
     list_all2 (\<lambda>(name, c) (c', l). c' = c \<and> map_of LABEL_ENUM name = Some l \<and> (l = 0 \<or> l = 1))
       (tagged_samples quotas centers rng) (zip center_set label_set) \<and>
     length center_set = length label_set \<and>
     map (map_of LABEL_ENUM) category_names = [Some 1, Some 0, Some 1, Some 0, Some 0, Some 0] \<and>
     (case n_training test_split (sum_list (map snd quotas)) of
        Inl e \<Rightarrow> make_labelled_sets_with quotas centers test_split rng = Inl e
      | Inr n \<Rightarrow>
          (\<exists>trc trl tec tel tagged.
             make_labelled_sets_with quotas centers test_split rng = Inr (trc, trl, tec, tel) \<and>
             mset tagged = mset (tagged_samples quotas centers rng) \<and>
             list_all2
               (\<lambda>(name, c) (c', l). c' = c \<and> map_of LABEL_ENUM name = Some l \<and> (l = 0 \<or> l = 1))
               tagged (zip (trc @ tec) (trl @ tel)) \<and>
             length (trc @ tec) = length (trl @ tel)))"
proof -
  from assms obtain center_set label_set where r:
    "sample_sets quotas centers rng = Inr (center_set, label_set)"
    "length center_set = sum_list (map snd quotas)"
    "length label_set = sum_list (map snd quotas)"
    "permutation_contract (permutation_outcome rng [0..<length center_set]) [0..<length center_set]"
    "zip center_set label_set =
       map (\<lambda>(name, c). (c, the (map_of LABEL_ENUM name))) (tagged_samples quotas centers rng)"
    by (rule sampler_run)
  let ?order = "permutation_outcome rng [0..<length center_set]"
  let ?oc = "map (\<lambda>i. center_set ! i) ?order"
  let ?ol = "map (\<lambda>i. label_set ! i) ?order"
  let ?tagged = "tagged_samples quotas centers rng"
  let ?h = "\<lambda>(name, c). (c, the (map_of LABEL_ENUM name))"
  let ?P = "\<lambda>(name, c) (c', l). c' = c \<and> map_of LABEL_ENUM name = Some l \<and> (l = 0 \<or> l = 1)"
  let ?tagged' = "map (\<lambda>i. ?tagged ! i) ?order"
  from r(2,3) have eq: "length center_set = length label_set" by simp
  have lt: "length ?tagged = length center_set"
    using arg_cong[OF r(5), of length] eq by simp
  have P: "?P x (?h x)" if "x \<in> set ?tagged" for x
  proof -
    obtain name c where x: "x = (name, c)" by (cases x)
    with that tagged_entry obtain pool where "(name, pool) \<in> set centers" by blast
    from sampler_input_lookup(3)[OF assms(1) this] x show ?thesis by auto
  qed
  then have pre: "list_all2 ?P ?tagged (zip center_set label_set)"
    unfolding r(5) by (rule list_all2_map_self)
  from r(4) have "mset ?order = mset [0..<length center_set]"
    by (simp add: permutation_contract_def)
  then have "set ?order = set [0..<length center_set]"
    by (rule mset_eq_setD)
  then have sub: "set ?order \<subseteq> {..<length center_set}" by auto
  have pt: "permutation_contract ?order [0..<length ?tagged]"
    using r(4) lt by simp
  have mt: "mset ?tagged' = mset ?tagged"
    by (rule index_by_permutation(2)[OF pt])
  have "zip ?oc ?ol = map (\<lambda>i. zip center_set label_set ! i) ?order"
    by (rule zip_index_by[OF eq sub])
  also have "\<dots> = map ?h ?tagged'"
    unfolding r(5) using sub lt by (auto simp: subset_iff)
  finally have z: "zip ?oc ?ol = map ?h ?tagged'" .
  have st: "set ?tagged' = set ?tagged"
    using mt by (rule mset_eq_setD)
  have post: "list_all2 ?P ?tagged' (zip ?oc ?ol)"
    unfolding z
  proof (rule list_all2_map_self)
    fix x assume "x \<in> set ?tagged'"
    with st have "x \<in> set ?tagged" by blast
    then show "?P x (?h x)" by (rule P)
  qed
  have len: "length ?oc = length ?ol"
    by simp
  have tab: "map (map_of LABEL_ENUM) category_names = [Some 1, Some 0, Some 1, Some 0, Some 0, Some 0]"
    by (simp add: LABEL_ENUM_def category_names_def)
  have run: "case n_training test_split (sum_list (map snd quotas)) of
        Inl e \<Rightarrow> make_labelled_sets_with quotas centers test_split rng = Inl e
      | Inr n \<Rightarrow>
          (\<exists>trc trl tec tel tagged.
             make_labelled_sets_with quotas centers test_split rng = Inr (trc, trl, tec, tel) \<and>
             mset tagged = mset ?tagged \<and>
             list_all2 ?P tagged (zip (trc @ tec) (trl @ tel)) \<and>
             length (trc @ tec) = length (trl @ tel))"
  proof (cases "n_training test_split (sum_list (map snd quotas))")
    case (Inl e)
    from sampler_split_fails[OF assms this] show ?thesis
      unfolding Inl by simp
  next
    case (Inr n)
    from assms Inr obtain cs ls trc trl tec tel where s:
      "sample_sets quotas centers rng = Inr (cs, ls)"
      "make_labelled_sets_with quotas centers test_split rng = Inr (trc, trl, tec, tel)"
      "trc @ tec = map (\<lambda>i. cs ! i) (permutation_outcome rng [0..<length cs])"
      "trl @ tel = map (\<lambda>i. ls ! i) (permutation_outcome rng [0..<length cs])"
      by (rule sampler_split)
    from s(1) r(1) have c: "cs = center_set" "ls = label_set" by simp_all
    from s(3,4) have t: "trc @ tec = ?oc" "trl @ tel = ?ol"
      unfolding c by simp_all
    have "\<exists>trc trl tec tel tagged.
             make_labelled_sets_with quotas centers test_split rng = Inr (trc, trl, tec, tel) \<and>
             mset tagged = mset ?tagged \<and>
             list_all2 ?P tagged (zip (trc @ tec) (trl @ tel)) \<and>
             length (trc @ tec) = length (trl @ tel)"
      apply (rule exI[of _ trc], rule exI[of _ trl], rule exI[of _ tec], rule exI[of _ tel])
      apply (rule exI[of _ ?tagged'])
      unfolding t
      using s(2) mt post len by simp
    then show ?thesis
      unfolding Inr by simp
  qed
  show ?thesis
    apply (rule exI[of _ center_set], rule exI[of _ label_set])
    apply (intro conjI)
    apply (rule r(1))
    apply (rule pre)
    apply (rule eq)
    apply (rule tab)
    apply (rule run)
    done
qed

theorem labels_follow_categories_witness:
  "sampler_input quotas_small centers_small \<and> outcomes_ok quotas_small centers_small rng_small \<and>
   \<not> starved quotas_small centers_small \<and>
   n_training double_0_1 (sum_list (map snd quotas_small)) = Inr 6 \<and>
   make_labelled_sets_with quotas_small centers_small double_0_1 rng_small =
     Inr ([(20, 25, 0), (20, 24, 0), (20, 23, 0), (20, 22, 0), (20, 21, 0), (5, 5, 0)],
          [0, 0, 0, 1, 0, 1], [(6, 5, 1)], [1]) \<and>
   (\<exists>tagged. mset tagged = mset (tagged_samples quotas_small centers_small rng_small) \<and>
      list_all2 (\<lambda>(name, c) (c', l). c' = c \<and> map_of LABEL_ENUM name = Some l \<and> (l = 0 \<or> l = 1))
        tagged
        (zip ([(20, 25, 0), (20, 24, 0), (20, 23, 0), (20, 22, 0), (20, 21, 0), (5, 5, 0)] @ [(6, 5, 1)])
             ([0, 0, 0, 1, 0, 1] @ [1]))) \<and>
   n_training NaN (sum_list (map snd quotas_small)) = Inl ValueError \<and>
   make_labelled_sets_with quotas_small centers_small NaN rng_small = Inl ValueError"
proof -
  note ok = rng_contract_outcomes[OF rng_small_contract, of quotas_small centers_small]
  note t = labels_follow_categories[OF small_input(1) ok small_input(2)]
  from t[of double_0_1]
  obtain trc trl tec tel tagged where r:
    "make_labelled_sets_with quotas_small centers_small double_0_1 rng_small = Inr (trc, trl, tec, tel)"
    "mset tagged = mset (tagged_samples quotas_small centers_small rng_small)"
    "list_all2 (\<lambda>(name, c) (c', l). c' = c \<and> map_of LABEL_ENUM name = Some l \<and> (l = 0 \<or> l = 1))
        tagged (zip (trc @ tec) (trl @ tel))"
    unfolding small_split_index by auto
  from r(1) have "Inr (trc, trl, tec, tel) =
      (Inr ([(20, 25, 0), (20, 24, 0), (20, 23, 0), (20, 22, 0), (20, 21, 0), (5, 5, 0)],
          [0, 0, 0, 1, 0, 1], [(6, 5, 1)], [1]) :: error + coords \<times> int list \<times> coords \<times> int list)"
    unfolding small_run by (rule sym)
  then have
    "trc = [(20, 25, 0), (20, 24, 0), (20, 23, 0), (20, 22, 0), (20, 21, 0), (5, 5, 0)]"
    "trl = [0, 0, 0, 1, 0, 1]" "tec = [(6, 5, 1)]" "tel = [1]"
    by blast+
  with r(2,3) have 1: "\<exists>tagged. mset tagged = mset (tagged_samples quotas_small centers_small rng_small) \<and>
      list_all2 (\<lambda>(name, c) (c', l). c' = c \<and> map_of LABEL_ENUM name = Some l \<and> (l = 0 \<or> l = 1))
        tagged
        (zip ([(20, 25, 0), (20, 24, 0), (20, 23, 0), (20, 22, 0), (20, 21, 0), (5, 5, 0)] @ [(6, 5, 1)])
             ([0, 0, 0, 1, 0, 1] @ [1]))"
    by blast
  from t[of NaN] have 2:
    "make_labelled_sets_with quotas_small centers_small NaN rng_small = Inl ValueError"
    unfolding nan_small_split_index by auto
  from small_run small_input ok small_split_index 1 nan_small_split_index 2 show ?thesis
    by blast
qed

text \<open>
  Claim C6: \<open>make_labelled_sets\<close> fails with the ValueError of \<open>choice\<close> when a category
  with a positive quota has an empty pool; for a test split that is a fraction and fewer
  than \<open>2 ^ 53\<close> samples it fails if and only if there is such a category. For a
  category with a non-empty pool the draw succeeds for every quota and selects exactly
  quota columns, each a column of that pool. In a run without a starved category these
  are the entries of \<open>center_sets\<close>; such a run returns unless the computation of the
  split index fails, and the returned coordinates, training then test, are a
  rearrangement of the concatenation of these entries, \<open>sum(q_i)\<close> columns in all.
\<close>

theorem sampler_fails_iff_starved:
  assumes "sampler_input quotas centers" "outcomes_ok quotas centers rng"
  shows "(starved quotas centers \<longrightarrow>
        make_labelled_sets_with quotas centers test_split rng = Inl ValueError) \<and>
     (is_fraction test_split \<and> sum_list (map snd quotas) < 2 ^ 53 \<longrightarrow>
        ((\<exists>e. make_labelled_sets_with quotas centers test_split rng = Inl e) \<longleftrightarrow>
           starved quotas centers)) \<and>
     (\<forall>name pool quota.
        (name, pool) \<in> set centers \<and> map_of quotas name = Some quota \<and> pool \<noteq> [] \<longrightarrow>
        (\<exists>idx sample.
           random_choice rng name [0..<length pool] quota = Inr idx \<and>
           index_by pool idx = Inr sample \<and> length sample = quota \<and> set sample \<subseteq> set pool)) \<and>
     (\<not> starved quotas centers \<longrightarrow>
        (\<exists>choices center_sets.
           draw_choices quotas centers rng = Inr choices \<and>
           select_center_sets centers choices = Inr center_sets \<and>
           keys center_sets = keys centers \<and>
           (\<forall>name pool quota.
              (name, pool) \<in> set centers \<and> map_of quotas name = Some quota \<longrightarrow>
              (\<exists>sample. map_of center_sets name = Some sample \<and>
                 length sample = quota \<and> set sample \<subseteq> set pool)) \<and>
           (case n_training test_split (sum_list (map snd quotas)) of
              Inl e \<Rightarrow> make_labelled_sets_with quotas centers test_split rng = Inl e
            | Inr n \<Rightarrow>
                (\<exists>trc trl tec tel.
                   make_labelled_sets_with quotas centers test_split rng =
                     Inr (trc, trl, tec, tel) \<and>
                   mset (trc @ tec) = mset (concat (map snd center_sets)) \<and>
                   length (trc @ tec) = sum_list (map snd quotas) \<and>
                   length (trl @ tel) = sum_list (map snd quotas)))))"
proof -
  from assms(2) have ch: "choices_ok quotas centers rng"
    by (simp add: outcomes_ok_def)
  have drawn: "index_by pool (drawn quotas rng name pool) =
        Inr (map (\<lambda>i. pool ! i) (drawn quotas rng name pool)) \<and>
      length (map (\<lambda>i. pool ! i) (drawn quotas rng name pool)) = quota \<and>
      set (map (\<lambda>i. pool ! i) (drawn quotas rng name pool)) \<subseteq> set pool"
    if "(name, pool) \<in> set centers" "map_of quotas name = Some quota" "pool \<noteq> [] \<or> quota = 0"
    for name pool quota
    using choices_ok_entry[OF ch that] by (auto simp: index_by_def list_all_iff)
  have a: "starved quotas centers \<longrightarrow>
      make_labelled_sets_with quotas centers test_split rng = Inl ValueError"
    using sampler_fails[OF assms(1)] by blast
  have b: "(\<exists>e. make_labelled_sets_with quotas centers test_split rng = Inl e) \<longleftrightarrow>
      starved quotas centers"
    if f: "is_fraction test_split \<and> sum_list (map snd quotas) < 2 ^ 53"
  proof
    assume e: "\<exists>e. make_labelled_sets_with quotas centers test_split rng = Inl e"
    show "starved quotas centers"
    proof (rule ccontr)
      assume ns: "\<not> starved quotas centers"
      from f fraction_split_index[of test_split "sum_list (map snd quotas)"] obtain n where
        "n_training test_split (sum_list (map snd quotas)) = Inr n"
        by blast
      with assms ns obtain trc trl tec tel where
        "make_labelled_sets_with quotas centers test_split rng = Inr (trc, trl, tec, tel)"
        by (rule sampler_split)
      with e show False by simp
    qed
  next
    assume "starved quotas centers"
    with a show "\<exists>e. make_labelled_sets_with quotas centers test_split rng = Inl e"
      by blast
  qed
  have c: "\<forall>name pool quota.
        (name, pool) \<in> set centers \<and> map_of quotas name = Some quota \<and> pool \<noteq> [] \<longrightarrow>
        (\<exists>idx sample.
           random_choice rng name [0..<length pool] quota = Inr idx \<and>
           index_by pool idx = Inr sample \<and> length sample = quota \<and> set sample \<subseteq> set pool)"
  proof (intro allI impI)
    fix name pool quota
    assume h: "(name, pool) \<in> set centers \<and> map_of quotas name = Some quota \<and> pool \<noteq> []"
    then have "random_choice rng name [0..<length pool] quota =
        Inr (drawn quotas rng name pool)"
      by (simp add: random_choice_def drawn_def)
    with drawn[of name pool quota] h show "\<exists>idx sample.
           random_choice rng name [0..<length pool] quota = Inr idx \<and>
           index_by pool idx = Inr sample \<and> length sample = quota \<and> set sample \<subseteq> set pool"
      by blast
  qed
  have d: "\<exists>choices center_sets.
           draw_choices quotas centers rng = Inr choices \<and>
           select_center_sets centers choices = Inr center_sets \<and>
           keys center_sets = keys centers \<and>
           (\<forall>name pool quota.
              (name, pool) \<in> set centers \<and> map_of quotas name = Some quota \<longrightarrow>
              (\<exists>sample. map_of center_sets name = Some sample \<and>
                 length sample = quota \<and> set sample \<subseteq> set pool)) \<and>
           (case n_training test_split (sum_list (map snd quotas)) of
              Inl e \<Rightarrow> make_labelled_sets_with quotas centers test_split rng = Inl e
            | Inr n \<Rightarrow>
                (\<exists>trc trl tec tel.
                   make_labelled_sets_with quotas centers test_split rng =
                     Inr (trc, trl, tec, tel) \<and>
                   mset (trc @ tec) = mset (concat (map snd center_sets)) \<and>
                   length (trc @ tec) = sum_list (map snd quotas) \<and>
                   length (trl @ tel) = sum_list (map snd quotas)))"
    if ns: "\<not> starved quotas centers"
  proof -
    have ne: "pool \<noteq> [] \<or> quota = 0"
      if "(name, pool) \<in> set centers" "map_of quotas name = Some quota" for name pool quota
      using ns that by (auto simp: starved_iff)
    let ?choices = "map (\<lambda>(name, pool). (name, drawn quotas rng name pool)) centers"
    let ?sets = "map (\<lambda>(name, pool). (name, map (\<lambda>i. pool ! i) (drawn quotas rng name pool))) centers"
    have 1: "draw_choices quotas centers rng = Inr ?choices"
    proof (rule draw_choices_ok[OF assms(1)])
      fix name pool
      assume e: "(name, pool) \<in> set centers" "pool = []"
      from sampler_input_lookup(2)[OF assms(1) e(1)] obtain quota where
        q: "map_of quotas name = Some quota" by blast
      with ne[OF e(1) q] e(2) show "map_of quotas name = Some 0" by simp
    qed
    have 2: "select_center_sets centers ?choices = Inr ?sets"
    proof (rule select_center_sets_ok[OF assms(1)])
      fix name pool
      assume e: "(name, pool) \<in> set centers"
      from sampler_input_lookup(2)[OF assms(1) e] obtain quota where
        q: "map_of quotas name = Some quota" by blast
      from choices_ok_entry(2)[OF ch e q ne[OF e q]]
      show "list_all (\<lambda>i. i < length pool) (drawn quotas rng name pool)" .
    qed
    have 3: "keys ?sets = keys centers"
      by (simp add: keys_def case_prod_unfold comp_def)
    from assms(1) have dk: "distinct (keys centers)"
      by (simp add: sampler_input_def)
    have 4: "\<exists>sample. map_of ?sets name = Some sample \<and> length sample = quota \<and> set sample \<subseteq> set pool"
      if h: "(name, pool) \<in> set centers \<and> map_of quotas name = Some quota" for name pool quota
    proof -
      from h have e: "(name, pool) \<in> set centers" and q: "map_of quotas name = Some quota"
        by simp_all
      have "map_of ?sets name = Some (map (\<lambda>i. pool ! i) (drawn quotas rng name pool))"
        using getitem_mapped[OF dk e, of "\<lambda>name pool. map (\<lambda>i. pool ! i) (drawn quotas rng name pool)"]
        by (simp add: getitem_Inr)
      with drawn[OF e q ne[OF e q]] show ?thesis by blast
    qed
    have 5: "case n_training test_split (sum_list (map snd quotas)) of
              Inl e \<Rightarrow> make_labelled_sets_with quotas centers test_split rng = Inl e
            | Inr n \<Rightarrow>
                (\<exists>trc trl tec tel.
                   make_labelled_sets_with quotas centers test_split rng =
                     Inr (trc, trl, tec, tel) \<and>
                   mset (trc @ tec) = mset (concat (map snd ?sets)) \<and>
                   length (trc @ tec) = sum_list (map snd quotas) \<and>
                   length (trl @ tel) = sum_list (map snd quotas))"
    proof (cases "n_training test_split (sum_list (map snd quotas))")
      case (Inl e)
      from sampler_split_fails[OF assms ns this] show ?thesis
        unfolding Inl by simp
    next
      case (Inr n)
      from assms ns Inr
      obtain center_set label_set trc trl tec tel where r:
        "length center_set = sum_list (map snd quotas)"
        "length label_set = sum_list (map snd quotas)"
        "permutation_contract (permutation_outcome rng [0..<length center_set]) [0..<length center_set]"
        "make_labelled_sets_with quotas centers test_split rng = Inr (trc, trl, tec, tel)"
        "trc @ tec = map (\<lambda>i. center_set ! i) (permutation_outcome rng [0..<length center_set])"
        "trl @ tel = map (\<lambda>i. label_set ! i) (permutation_outcome rng [0..<length center_set])"
        "center_set =
           concat (map (\<lambda>(name, pool). map (\<lambda>i. pool ! i) (drawn quotas rng name pool)) centers)"
        by (rule sampler_split)
      have cs: "concat (map snd ?sets) = center_set"
        unfolding r(7) by (simp add: comp_def case_prod_unfold)
      have m: "mset (trc @ tec) = mset (concat (map snd ?sets))"
        unfolding cs r(5) by (rule index_by_permutation(2)[OF r(3)])
      note lo = index_by_permutation(3)[OF r(3)]
      have l: "length (trc @ tec) = sum_list (map snd quotas)"
        "length (trl @ tel) = sum_list (map snd quotas)"
        unfolding r(5,6) using lo r(1) by simp_all
      from r(4) m l have "\<exists>trc trl tec tel.
                   make_labelled_sets_with quotas centers test_split rng =
                     Inr (trc, trl, tec, tel) \<and>
                   mset (trc @ tec) = mset (concat (map snd ?sets)) \<and>
                   length (trc @ tec) = sum_list (map snd quotas) \<and>
                   length (trl @ tel) = sum_list (map snd quotas)"
        by blast
      then show ?thesis
        unfolding Inr by simp
    qed
    show ?thesis
      apply (rule exI[of _ ?choices], rule exI[of _ ?sets])
      using 1 2 3 4 5 by blast
  qed
  from a b c d show ?thesis by blast
qed

theorem sampler_fails_iff_starved_witness:
  "sampler_input counts centers_starved \<and> outcomes_ok counts centers_starved rng_unit \<and>
   starved counts centers_starved \<and>
   is_fraction double_0_1 \<and> sum_list (map snd counts) < 2 ^ 53 \<and>
   (\<exists>e. make_labelled_sets centers_starved double_0_1 rng_unit = Inl e) \<and>
   make_labelled_sets centers_starved double_0_1 rng_unit = Inl ValueError \<and>
   (\<exists>idx sample.
      random_choice rng_unit ''inside'' [0..<length [(20, 20, 0) :: column]] 200000 = Inr idx \<and>
      index_by [(20, 20, 0) :: column] idx = Inr sample \<and> length sample = 200000 \<and>
      set sample \<subseteq> set [(20, 20, 0)]) \<and>
   sampler_input counts centers_unit \<and> outcomes_ok counts centers_unit rng_unit \<and>
   \<not> starved counts centers_unit \<and>
   n_training double_0_1 (sum_list (map snd counts)) = Inr 720000 \<and>
   \<not> (\<exists>e. make_labelled_sets centers_unit double_0_1 rng_unit = Inl e) \<and>
   (\<exists>choices center_sets sample trc trl tec tel.
      draw_choices counts centers_unit rng_unit = Inr choices \<and>
      select_center_sets centers_unit choices = Inr center_sets \<and>
      keys center_sets = keys centers_unit \<and>
      map_of center_sets ''inside'' = Some sample \<and> length sample = 200000 \<and>
      set sample \<subseteq> set [(20, 20, 0)] \<and>
      make_labelled_sets centers_unit double_0_1 rng_unit = Inr (trc, trl, tec, tel) \<and>
      mset (trc @ tec) = mset (concat (map snd center_sets)) \<and>
      length (trc @ tec) = 800000) \<and>
   n_training NaN (sum_list (map snd counts)) = Inl ValueError \<and>
   make_labelled_sets centers_unit NaN rng_unit = Inl ValueError"
proof -
  note oks = rng_contract_outcomes[OF rng_unit_contract, of counts centers_starved]
  note oku = rng_contract_outcomes[OF rng_unit_contract, of counts centers_unit]
  note a = sampler_fails_iff_starved[OF starved_input(1) oks, of double_0_1]
  note b = sampler_fails_iff_starved[OF unit_input(1) oku, of double_0_1]
  note n = sampler_fails_iff_starved[OF unit_input(1) oku, of NaN]
  have f: "is_fraction double_0_1" "sum_list (map snd counts) < 2 ^ 53"
    by (simp_all add: double_0_1_def dyadic_def counts_total)
  have e1: "(''inside'', [(20, 20, 0)]) \<in> set centers_starved \<and>
      map_of counts ''inside'' = Some 200000 \<and> [(20, 20, 0) :: column] \<noteq> []"
    by (simp add: centers_starved_def counts_def)
  have e2: "(''inside'', [(20, 20, 0)]) \<in> set centers_unit \<and>
      map_of counts ''inside'' = Some 200000"
    by (simp add: centers_unit_def counts_def)
  from a starved_input(2) have 1:
    "make_labelled_sets centers_starved double_0_1 rng_unit = Inl ValueError"
    by (simp add: make_labelled_sets_def)
  from a f starved_input(2) have 2:
    "\<exists>e. make_labelled_sets centers_starved double_0_1 rng_unit = Inl e"
    unfolding make_labelled_sets_def by blast
  from a e1 have 3: "\<exists>idx sample.
      random_choice rng_unit ''inside'' [0..<length [(20, 20, 0) :: column]] 200000 = Inr idx \<and>
      index_by [(20, 20, 0) :: column] idx = Inr sample \<and> length sample = 200000 \<and>
      set sample \<subseteq> set [(20, 20, 0)]"
    by blast
  from b f unit_input(2) have 4:
    "\<not> (\<exists>e. make_labelled_sets centers_unit double_0_1 rng_unit = Inl e)"
    unfolding make_labelled_sets_def by blast
  from b[THEN conjunct2, THEN conjunct2, THEN conjunct2, THEN mp, OF unit_input(2)]
  obtain choices center_sets trc trl tec tel where c:
    "draw_choices counts centers_unit rng_unit = Inr choices"
    "select_center_sets centers_unit choices = Inr center_sets"
    "keys center_sets = keys centers_unit"
    "\<forall>name pool quota.
        (name, pool) \<in> set centers_unit \<and> map_of counts name = Some quota \<longrightarrow>
        (\<exists>sample. map_of center_sets name = Some sample \<and>
           length sample = quota \<and> set sample \<subseteq> set pool)"
    "make_labelled_sets_with counts centers_unit double_0_1 rng_unit = Inr (trc, trl, tec, tel)"
    "mset (trc @ tec) = mset (concat (map snd center_sets))"
    "length (trc @ tec) = sum_list (map snd counts)"
    unfolding default_split_index sum.case by blast
  from c(4) e2 obtain sample where s: "map_of center_sets ''inside'' = Some sample"
    "length sample = 200000" "set sample \<subseteq> set [(20, 20, 0)]"
    by blast
  from c(5) have m: "make_labelled_sets centers_unit double_0_1 rng_unit = Inr (trc, trl, tec, tel)"
    by (simp add: make_labelled_sets_def)
  from c(7) have l: "length (trc @ tec) = 800000"
    by (simp only: counts_total)
  from c(1-3) s m c(6) l have 5: "\<exists>choices center_sets sample trc trl tec tel.
      draw_choices counts centers_unit rng_unit = Inr choices \<and>
      select_center_sets centers_unit choices = Inr center_sets \<and>
      keys center_sets = keys centers_unit \<and>
      map_of center_sets ''inside'' = Some sample \<and> length sample = 200000 \<and>
      set sample \<subseteq> set [(20, 20, 0)] \<and>
      make_labelled_sets centers_unit double_0_1 rng_unit = Inr (trc, trl, tec, tel) \<and>
      mset (trc @ tec) = mset (concat (map snd center_sets)) \<and>
      length (trc @ tec) = 800000"
    by blast
  from n unit_input(2) have 6: "make_labelled_sets centers_unit NaN rng_unit = Inl ValueError"
    unfolding nan_default_split_index make_labelled_sets_def by auto
  from 1 2 3 4 5 6 f starved_input oks unit_input oku default_split_index
    nan_default_split_index show ?thesis
    by blast
qed

end
